theory Spec2Isabelle
  imports Main "HOL-Library.Word"
begin

section \<open>Values of the runtime\<close>

text \<open>
  A \<open>Buffer\<close> is a list of bytes. A BigInt is an \<open>int\<close>. A JavaScript number that holds
  an integer is an \<open>int\<close> as well; the places where the source converts a BigInt to a
  number (\<open>Number(x)\<close>) or adds to the result of such a conversion round to the nearest
  double, and that rounding is written out below. Text decoded from a buffer is a list
  of UTF-16 code units; names that come from the schema or from paths are \<open>string\<close>s.
\<close>

type_synonym buffer = "8 word list"
type_synonym jsstring = "16 word list"

datatype js_error = RangeError | Error

subsection \<open>BigInt to number\<close>

function bit_length :: "int \<Rightarrow> nat" where
  "bit_length n = (if n \<le> 0 then 0 else Suc (bit_length (n div 2)))"
  by pat_completeness auto
termination
  by (relation "measure nat") auto

declare bit_length.simps [simp del]

text \<open>
  \<open>round53 n\<close> is the double nearest to the integer \<open>n\<close> (53 significant bits, ties to
  the even significand). It is the identity up to \<open>2 ^ 53\<close> in magnitude.
\<close>

definition round53 :: "int \<Rightarrow> int" where
  "round53 n =
     (let a = \<bar>n\<bar> in
      if a < 2 ^ 53 then n
      else
        let s = bit_length a - 53;
            q = a div 2 ^ s;
            r = a mod 2 ^ s;
            h = 2 ^ (s - 1);
            q' = (if h < r \<or> (r = h \<and> odd q) then q + 1 else q)
        in sgn n * (q' * 2 ^ s))"

definition Number :: "int \<Rightarrow> int" where
  "Number b = round53 b"

definition num_add :: "int \<Rightarrow> int \<Rightarrow> int" where
  "num_add a b = round53 (a + b)"

subsection \<open>Reading integers from a buffer\<close>

text \<open>Every reader of \<open>Buffer\<close> throws a \<open>RangeError\<close> unless the \<open>n\<close> bytes at \<open>off\<close> lie
  inside the buffer. Values are little-endian; the signed readers are two's complement.\<close>

definition in_range :: "buffer \<Rightarrow> int \<Rightarrow> int \<Rightarrow> bool" where
  "in_range buf off n \<longleftrightarrow> 0 \<le> off \<and> off + n \<le> int (length buf)"

definition bytes_at :: "buffer \<Rightarrow> int \<Rightarrow> nat \<Rightarrow> buffer" where
  "bytes_at buf off n = take n (drop (nat off) buf)"

fun le_uint :: "buffer \<Rightarrow> int" where
  "le_uint [] = 0"
| "le_uint (b # bs) = uint b + 256 * le_uint bs"

definition to_signed :: "nat \<Rightarrow> int \<Rightarrow> int" where
  "to_signed w u = (if 2 ^ (w - 1) \<le> u then u - 2 ^ w else u)"

definition readUIntLE :: "nat \<Rightarrow> buffer \<Rightarrow> int \<Rightarrow> js_error + int" where
  "readUIntLE n buf off =
     (if in_range buf off (int n) then Inr (le_uint (bytes_at buf off n)) else Inl RangeError)"

definition readIntLE :: "nat \<Rightarrow> buffer \<Rightarrow> int \<Rightarrow> js_error + int" where
  "readIntLE n buf off = map_sum id (to_signed (8 * n)) (readUIntLE n buf off)"

definition readUInt8 :: "buffer \<Rightarrow> int \<Rightarrow> js_error + int" where
  "readUInt8 = readUIntLE 1"

definition readUInt16LE :: "buffer \<Rightarrow> int \<Rightarrow> js_error + int" where
  "readUInt16LE = readUIntLE 2"

definition readInt16LE :: "buffer \<Rightarrow> int \<Rightarrow> js_error + int" where
  "readInt16LE = readIntLE 2"

definition readUInt32LE :: "buffer \<Rightarrow> int \<Rightarrow> js_error + int" where
  "readUInt32LE = readUIntLE 4"

definition readInt32LE :: "buffer \<Rightarrow> int \<Rightarrow> js_error + int" where
  "readInt32LE = readIntLE 4"

definition readBigInt64LE :: "buffer \<Rightarrow> int \<Rightarrow> js_error + int" where
  "readBigInt64LE = readIntLE 8"

definition readBigUInt64LE :: "buffer \<Rightarrow> int \<Rightarrow> js_error + int" where
  "readBigUInt64LE = readUIntLE 8"

text \<open>\<open>buffer.toString('utf16le', start, end)\<close>: pairs of bytes, low byte first; an odd
  last byte is dropped.\<close>

fun utf16le :: "buffer \<Rightarrow> jsstring" where
  "utf16le (lo # hi # bs) = (ucast lo + 256 * ucast hi) # utf16le bs"
| "utf16le _ = []"

text \<open>The bytes from \<open>start\<close> up to \<open>stop\<close>, both clamped to the buffer: \<open>buffer.slice\<close>
  and the range of \<open>buffer.toString\<close>, for bounds that are not negative.\<close>

definition slice_bytes :: "buffer \<Rightarrow> int \<Rightarrow> int \<Rightarrow> buffer" where
  "slice_bytes buf start stop =
     (let n = int (length buf);
          a = max 0 (min start n);
          b = max 0 (min stop n)
      in take (nat (b - a)) (drop (nat a) buf))"

subsection \<open>Text helpers\<close>

fun show_nat :: "nat \<Rightarrow> string" where
  "show_nat n =
     (if n < 10 then [char_of (48 + n)]
      else show_nat (n div 10) @ [char_of (48 + n mod 10)])"

declare show_nat.simps [simp del]

definition show_int :: "int \<Rightarrow> string" where
  "show_int i = (if i < 0 then CHR ''-'' # show_nat (nat (- i)) else show_nat (nat i))"

definition js_of_string :: "string \<Rightarrow> jsstring" where
  "js_of_string s = map of_char s"

text \<open>\<open>toLowerCase\<close> on the ASCII letters; table and file names are ASCII.\<close>

definition lower_char :: "char \<Rightarrow> char" where
  "lower_char c =
     (let n = (of_char c :: nat) in if 65 \<le> n \<and> n \<le> 90 then char_of (n + 32) else c)"

definition toLowerCase :: "string \<Rightarrow> string" where
  "toLowerCase s = map lower_char s"

fun find_sub :: "'a list \<Rightarrow> 'a list \<Rightarrow> nat option" where
  "find_sub pat [] = (if pat = [] then Some 0 else None)"
| "find_sub pat (x # xs) =
     (if take (length pat) (x # xs) = pat then Some 0
      else map_option Suc (find_sub pat xs))"

text \<open>\<open>haystack.indexOf(pat, start)\<close> for \<open>start\<close> inside the haystack.\<close>

definition indexOf :: "'a list \<Rightarrow> 'a list \<Rightarrow> nat \<Rightarrow> int" where
  "indexOf hay pat start =
     (case find_sub pat (drop start hay) of None \<Rightarrow> - 1 | Some k \<Rightarrow> int (start + k))"

definition str_includes :: "'a list \<Rightarrow> 'a list \<Rightarrow> bool" where
  "str_includes hay pat \<longleftrightarrow> find_sub pat hay \<noteq> None"

section \<open>The table decoder (dat-parser.ts)\<close>

subsection \<open>Schema\<close>

text \<open>The type names a column may carry, as the union type of \<open>SchemaColumn.type\<close> lists
  them; \<open>T_array\<close> is the name \<open>array\<close>.\<close>

datatype coltype =
  T_bool | T_i16 | T_i32 | T_u16 | T_u32 | T_f32 | T_string | T_row | T_foreignrow
  | T_enumrow | T_array

text \<open>Of a column only the fields the decoder reads are kept: \<open>name\<close>, \<open>array\<close> and
  \<open>type\<close>.\<close>

record SchemaColumn =
  col_name :: "string option"
  col_array :: bool
  col_type :: coltype

record SchemaTable =
  validFor :: int
  table_name :: string
  columns :: "SchemaColumn list"

record Schema =
  version :: int
  createdAt :: int
  tables :: "SchemaTable list"

fun FIELD_SIZES :: "coltype \<Rightarrow> int" where
  "FIELD_SIZES T_bool = 1"
| "FIELD_SIZES T_i16 = 2"
| "FIELD_SIZES T_u16 = 2"
| "FIELD_SIZES T_i32 = 4"
| "FIELD_SIZES T_u32 = 4"
| "FIELD_SIZES T_f32 = 4"
| "FIELD_SIZES T_string = 8"
| "FIELD_SIZES T_row = 8"
| "FIELD_SIZES T_foreignrow = 16"
| "FIELD_SIZES T_enumrow = 4"
| "FIELD_SIZES T_array = 16"

text \<open>\<open>x || d\<close> on numbers: zero is falsy.\<close>

definition or_default :: "int \<Rightarrow> int \<Rightarrow> int" where
  "or_default x d = (if x = 0 then d else x)"

definition NULL_ROW :: int where
  "NULL_ROW = - 1"

definition NULL_FOREIGN_ROW :: int where
  "NULL_FOREIGN_ROW = 0xFFFFFFFFFFFFFFFE"

definition NULL_MARKER :: int where
  "NULL_MARKER = to_signed 64 0xFEFEFEFEFEFEFEFE"

definition VARIABLE_DATA_MAGIC :: buffer where
  "VARIABLE_DATA_MAGIC = [0xBB, 0xBB, 0xBB, 0xBB, 0xBB, 0xBB, 0xBB, 0xBB]"

subsection \<open>The parser object\<close>

record DATParser =
  schema :: Schema
  tableMap :: "string \<rightharpoonup> SchemaTable"
  isPOE2 :: bool

definition table_selected :: "bool \<Rightarrow> SchemaTable \<Rightarrow> bool" where
  "table_selected poe2 t =
     (let validForPOE2 = (and (validFor t) 2 \<noteq> 0);
          validForPOE1 = (and (validFor t) 1 \<noteq> 0)
      in (poe2 \<and> validForPOE2) \<or> (\<not> poe2 \<and> validForPOE1))"

fun build_tableMap ::
  "bool \<Rightarrow> SchemaTable list \<Rightarrow> (string \<rightharpoonup> SchemaTable) \<Rightarrow> (string \<rightharpoonup> SchemaTable)" where
  "build_tableMap poe2 [] m = m"
| "build_tableMap poe2 (t # ts) m =
     build_tableMap poe2 ts
       (if table_selected poe2 t then m(toLowerCase (table_name t) \<mapsto> t) else m)"

definition new_DATParser :: "Schema \<Rightarrow> bool \<Rightarrow> DATParser" where
  "new_DATParser sch poe2 =
     \<lparr>schema = sch, tableMap = build_tableMap poe2 (tables sch) Map.empty, isPOE2 = poe2\<rparr>"

definition getTableSchema :: "DATParser \<Rightarrow> string \<Rightarrow> SchemaTable option" where
  "getTableSchema p tableName = tableMap p (toLowerCase tableName)"

fun column_size :: "SchemaColumn \<Rightarrow> int" where
  "column_size col = (if col_array col then 16 else or_default (FIELD_SIZES (col_type col)) 8)"

fun calculateRowSize_loop :: "SchemaColumn list \<Rightarrow> int \<Rightarrow> int" where
  "calculateRowSize_loop [] sz = sz"
| "calculateRowSize_loop (col # cols) sz = calculateRowSize_loop cols (sz + column_size col)"

definition calculateRowSize :: "SchemaTable \<Rightarrow> int" where
  "calculateRowSize t = calculateRowSize_loop (columns t) 0"

subsection \<open>Decoded values\<close>

text \<open>A 32-bit float is kept as its IEEE-754 bit pattern. A row is a JavaScript object:
  a list of key and value in insertion order; assigning to a key that is present
  replaces its value in place. (The engine lists keys that look like array indices
  first, and treats the key \<open>__proto__\<close> apart; lookups of other keys, the only thing
  stated below, do not depend on either.)\<close>

datatype jsval =
  JNull | JBool bool | JNum int | JFloat "32 word" | JStr jsstring | JArr "jsval list"

type_synonym jsobject = "(string \<times> jsval) list"

fun obj_set :: "jsobject \<Rightarrow> string \<Rightarrow> jsval \<Rightarrow> jsobject" where
  "obj_set [] k v = [(k, v)]"
| "obj_set ((k', v') # kvs) k v =
     (if k' = k then (k, v) # kvs else (k', v') # obj_set kvs k v)"

definition obj_get :: "jsobject \<Rightarrow> string \<Rightarrow> jsval option" where
  "obj_get ob k = map_of ob k"

subsection \<open>Strings\<close>

text \<open>The \<open>while\<close> loop of \<open>readString\<close>: \<open>e\<close> is \<open>end\<close>. The conversion of the bytes to
  text is taken not to throw (it does only beyond the engine's longest string).\<close>

function find_terminator :: "buffer \<Rightarrow> int \<Rightarrow> js_error + int" where
  "find_terminator buf e =
     (if e + 4 \<le> int (length buf) then
        (case readUInt32LE buf e of
           Inl err \<Rightarrow> Inl err
         | Inr v \<Rightarrow> if v = 0 then Inr e else find_terminator buf (e + 2))
      else Inr e)"
  by pat_completeness auto
termination
  by (relation "measure (\<lambda>(buf, e). nat (int (length buf) - e))") auto

declare find_terminator.simps [simp del]

definition readString :: "buffer \<Rightarrow> int \<Rightarrow> js_error + jsstring" where
  "readString buf offset =
     (if int (length buf) \<le> offset then Inr []
      else
        (case find_terminator buf offset of
           Inl err \<Rightarrow> Inl err
         | Inr e \<Rightarrow> if e = offset then Inr [] else Inr (utf16le (slice_bytes buf offset e))))"

subsection \<open>Fields\<close>

text \<open>\<open>readField\<close> returns the value and \<open>bytesRead\<close>. The last case is the \<open>default\<close> of
  the \<open>switch\<close>, reached by the one remaining type name, \<open>array\<close>: eight bytes, as the
  decimal text of the BigInt.\<close>

definition readField :: "buffer \<Rightarrow> int \<Rightarrow> int \<Rightarrow> coltype \<Rightarrow> js_error + (jsval \<times> int)" where
  "readField buf offset variableDataStart ty =
     (case ty of
        T_bool \<Rightarrow> map_sum id (\<lambda>v. (JBool (v \<noteq> 0), 1)) (readUInt8 buf offset)
      | T_i16 \<Rightarrow> map_sum id (\<lambda>v. (JNum v, 2)) (readInt16LE buf offset)
      | T_u16 \<Rightarrow> map_sum id (\<lambda>v. (JNum v, 2)) (readUInt16LE buf offset)
      | T_i32 \<Rightarrow> map_sum id (\<lambda>v. (JNum v, 4)) (readInt32LE buf offset)
      | T_enumrow \<Rightarrow> map_sum id (\<lambda>v. (JNum v, 4)) (readInt32LE buf offset)
      | T_u32 \<Rightarrow> map_sum id (\<lambda>v. (JNum v, 4)) (readUInt32LE buf offset)
      | T_f32 \<Rightarrow> map_sum id (\<lambda>v. (JFloat (word_of_int v), 4)) (readUInt32LE buf offset)
      | T_string \<Rightarrow>
          (case readBigInt64LE buf offset of
             Inl err \<Rightarrow> Inl err
           | Inr strOffset \<Rightarrow>
               if strOffset < 0 then Inr (JNull, 8)
               else
                 (case readString buf (num_add variableDataStart (Number strOffset)) of
                    Inl err \<Rightarrow> Inl err
                  | Inr str \<Rightarrow> Inr (JStr str, 8)))
      | T_row \<Rightarrow>
          (case readBigInt64LE buf offset of
             Inl err \<Rightarrow> Inl err
           | Inr rid \<Rightarrow>
               if rid = NULL_ROW \<or> rid = NULL_MARKER then Inr (JNull, 8)
               else Inr (JNum (Number rid), 8))
      | T_foreignrow \<Rightarrow>
          (case readBigInt64LE buf offset of
             Inl err \<Rightarrow> Inl err
           | Inr rid \<Rightarrow>
               if rid = NULL_ROW \<or> rid = NULL_FOREIGN_ROW \<or> rid = NULL_MARKER
               then Inr (JNull, 16)
               else Inr (JNum (Number rid), 16))
      | T_array \<Rightarrow>
          map_sum id (\<lambda>v. (JStr (js_of_string (show_int v)), 8)) (readBigInt64LE buf offset))"

subsection \<open>Arrays\<close>

text \<open>The element loop of \<open>readArray\<close>: \<open>i\<close> counts the elements read, \<open>elementOffset\<close>
  is the cursor in the variable region, \<open>vals\<close> the list built so far. A read that throws
  pushes null.\<close>

function readArray_loop ::
  "buffer \<Rightarrow> int \<Rightarrow> coltype \<Rightarrow> int \<Rightarrow> int \<Rightarrow> int \<Rightarrow> int \<Rightarrow> jsval list \<Rightarrow> jsval list" where
  "readArray_loop buf variableDataStart elementType elementSize count i elementOffset vals =
     (if i < count then
        (if int (length buf) < elementOffset + elementSize then vals
         else
           (case readField buf elementOffset variableDataStart elementType of
              Inr (v, bytesRead) \<Rightarrow>
                readArray_loop buf variableDataStart elementType elementSize count (i + 1)
                  (elementOffset + elementSize) (vals @ [v])
            | Inl err \<Rightarrow>
                readArray_loop buf variableDataStart elementType elementSize count (i + 1)
                  (elementOffset + elementSize) (vals @ [JNull])))
      else vals)"
  by pat_completeness auto
termination
  by (relation "measure (\<lambda>(buf, vds, ty, sz, count, i, off, vals). nat (count - i))") auto

declare readArray_loop.simps [simp del]

definition readArray :: "buffer \<Rightarrow> int \<Rightarrow> int \<Rightarrow> coltype \<Rightarrow> js_error + (jsval list \<times> int)" where
  "readArray buf offset variableDataStart elementType =
     (case readBigInt64LE buf offset of
        Inl err \<Rightarrow> Inl err
      | Inr len \<Rightarrow>
     (case readBigInt64LE buf (offset + 8) of
        Inl err \<Rightarrow> Inl err
      | Inr arrayOffset \<Rightarrow>
          if len = 0 \<or> arrayOffset < 0 then Inr ([], 16)
          else
            let count = Number len in
            if 100000 < count \<or> count < 0 then Inr ([], 16)
            else if elementType = T_array \<or> FIELD_SIZES elementType = 0 then Inr ([], 16)
            else
              let dataOffset = num_add variableDataStart (Number arrayOffset) in
              if dataOffset < 0 \<or> int (length buf) \<le> dataOffset then Inr ([], 16)
              else
                let elementSize = or_default (FIELD_SIZES elementType) 8 in
                Inr (readArray_loop buf variableDataStart elementType elementSize count 0
                       dataOffset [], 16)))"

subsection \<open>Rows\<close>

text \<open>\<open>col.name || `_unknown${colIdx}`\<close>: a missing and an empty name are both falsy.\<close>

definition fieldName_of :: "SchemaColumn \<Rightarrow> nat \<Rightarrow> string" where
  "fieldName_of col colIdx =
     (case col_name col of
        None \<Rightarrow> ''_unknown'' @ show_nat colIdx
      | Some n \<Rightarrow> if n = [] then ''_unknown'' @ show_nat colIdx else n)"

text \<open>The column loop of one row. The state is the row object and the cursor; the loop
  leaves at the first column that starts at or after \<open>rowStart + rowSize\<close>. A read that
  throws stores null and advances by the nominal size of the column.\<close>

fun parse_columns ::
  "buffer \<Rightarrow> int \<Rightarrow> int \<Rightarrow> int \<Rightarrow> SchemaColumn list \<Rightarrow> nat \<Rightarrow> jsobject \<times> int \<Rightarrow> jsobject \<times> int" where
  "parse_columns buf variableDataStart rowStart rowSize [] colIdx (row, offset) = (row, offset)"
| "parse_columns buf variableDataStart rowStart rowSize (col # cols) colIdx (row, offset) =
     (let fieldName = fieldName_of col colIdx in
      if rowStart + rowSize \<le> offset then (row, offset)
      else if col_array col then
        (case readArray buf offset variableDataStart (col_type col) of
           Inr (v, bytesRead) \<Rightarrow>
             parse_columns buf variableDataStart rowStart rowSize cols (Suc colIdx)
               (obj_set row fieldName (JArr v), offset + bytesRead)
         | Inl err \<Rightarrow>
             parse_columns buf variableDataStart rowStart rowSize cols (Suc colIdx)
               (obj_set row fieldName JNull, offset + column_size col))
      else
        (case readField buf offset variableDataStart (col_type col) of
           Inr (v, bytesRead) \<Rightarrow>
             parse_columns buf variableDataStart rowStart rowSize cols (Suc colIdx)
               (obj_set row fieldName v, offset + bytesRead)
         | Inl err \<Rightarrow>
             parse_columns buf variableDataStart rowStart rowSize cols (Suc colIdx)
               (obj_set row fieldName JNull, offset + column_size col)))"

text \<open>One pass of the row loop: a fresh object with \<open>_rid\<close>, the columns, and the cursor
  set to \<open>rowStart + rowSize\<close> whatever the columns consumed.\<close>

definition parse_row ::
  "buffer \<Rightarrow> int \<Rightarrow> int \<Rightarrow> SchemaColumn list \<Rightarrow> int \<Rightarrow> int \<Rightarrow> jsobject \<times> int" where
  "parse_row buf variableDataStart rowSize cols i offset =
     (let row = [(''_rid'', JNum i)];
          rowStart = offset;
          (row', offset') = parse_columns buf variableDataStart rowStart rowSize cols 0 (row, offset)
      in (row', rowStart + rowSize))"

function parse_rows ::
  "buffer \<Rightarrow> int \<Rightarrow> int \<Rightarrow> SchemaColumn list \<Rightarrow> int \<Rightarrow> int \<Rightarrow> int \<Rightarrow> jsobject list
     \<Rightarrow> jsobject list \<times> int" where
  "parse_rows buf variableDataStart rowSize cols rowCount i offset acc =
     (if i < rowCount then
        (let (row, offset') = parse_row buf variableDataStart rowSize cols i offset
         in parse_rows buf variableDataStart rowSize cols rowCount (i + 1) offset' (acc @ [row]))
      else (acc, offset))"
  by pat_completeness auto
termination
  by (relation "measure (\<lambda>(buf, vds, rs, cols, rowCount, i, off, acc). nat (rowCount - i))") auto

declare parse_rows.simps [simp del]

record parse_result =
  rows :: "jsobject list"
  rowCount :: int
  error :: "string option"

text \<open>
  \<open>parse\<close>. The only read outside a handler is the row count, behind the length test.
  The outer handler of the source encloses the row loop, whose every read sits in the
  inner handler of its column; nothing else in the loop throws, so the result of the
  loop is returned as it is. \<open>Math.floor(a / b)\<close> on a byte count and a 32-bit row count
  is the integer quotient. The schema's row size is computed and compared with the
  observed one, but the body of that \<open>if\<close> is empty: \<open>schemaRowSize\<close> is bound and unused.
\<close>

definition parse :: "DATParser \<Rightarrow> buffer \<Rightarrow> string \<Rightarrow> js_error + parse_result" where
  "parse p buf tableName =
     (case getTableSchema p tableName of
        None \<Rightarrow> Inr \<lparr>rows = [], rowCount = 0, error = Some (''Unknown table: '' @ tableName)\<rparr>
      | Some table \<Rightarrow>
          if length buf < 4 then Inr \<lparr>rows = [], rowCount = 0, error = Some ''Buffer too small''\<rparr>
          else
            (case readUInt32LE buf 0 of
               Inl err \<Rightarrow> Inl err
             | Inr rc \<Rightarrow>
                 if rc = 0 then Inr \<lparr>rows = [], rowCount = 0, error = None\<rparr>
                 else
                   let fixedDataStart = 4;
                       magicIndex = indexOf buf VARIABLE_DATA_MAGIC (nat fixedDataStart)
                   in
                   if magicIndex = - 1
                   then Inr \<lparr>rows = [], rowCount = 0, error = Some ''Magic bytes not found''\<rparr>
                   else
                     let variableDataStart = magicIndex;
                         fixedDataLength = magicIndex - fixedDataStart;
                         actualRowSize = fixedDataLength div rc;
                         schemaRowSize = calculateRowSize table;
                         rowSize = actualRowSize;
                         (rs, offset) =
                            parse_rows buf variableDataStart rowSize (columns table) rc 0
                              fixedDataStart []
                     in Inr \<lparr>rows = rs, rowCount = rc, error = None\<rparr>))"

subsection \<open>Notions used to state the properties\<close>

text \<open>The value \<open>readArray\<close> pushes for the element stored at \<open>pos\<close>.\<close>

definition read_element :: "buffer \<Rightarrow> int \<Rightarrow> coltype \<Rightarrow> int \<Rightarrow> jsval" where
  "read_element buf variableDataStart elementType pos =
     (case readField buf pos variableDataStart elementType of
        Inr (v, bytesRead) \<Rightarrow> v
      | Inl err \<Rightarrow> JNull)"

definition elements_that_fit :: "buffer \<Rightarrow> int \<Rightarrow> int \<Rightarrow> int" where
  "elements_that_fit buf dataOffset elementSize = (int (length buf) - dataOffset) div elementSize"

text \<open>A 4-byte run of zeros at \<open>e\<close>.\<close>

definition zero_run :: "buffer \<Rightarrow> int \<Rightarrow> bool" where
  "zero_run buf e \<longleftrightarrow> bytes_at buf e 4 = [0, 0, 0, 0]"

subsection \<open>Example buffers\<close>

text \<open>An 8-byte string reference with offset 8, the magic, then \<open>hi\<close> and its terminator.\<close>

definition string_example :: buffer where
  "string_example =
     [8, 0, 0, 0, 0, 0, 0, 0,
      0xBB, 0xBB, 0xBB, 0xBB, 0xBB, 0xBB, 0xBB, 0xBB,
      0x68, 0, 0x69, 0, 0, 0, 0, 0]"

text \<open>An array header announcing three \<open>i32\<close> at offset 0 of a variable region that
  holds two of them and two stray bytes; and a header announcing 100001 elements.\<close>

definition array_example :: buffer where
  "array_example =
     [3, 0, 0, 0, 0, 0, 0, 0,
      0, 0, 0, 0, 0, 0, 0, 0,
      1, 0, 0, 0,
      2, 0, 0, 0,
      3, 0]"

definition long_array_example :: buffer where
  "long_array_example =
     [0xA1, 0x86, 0x01, 0, 0, 0, 0, 0,
      0, 0, 0, 0, 0, 0, 0, 0,
      1, 0, 0, 0]"

text \<open>A table whose schema row size is 24 (\<open>i32\<close>, two strings, \<open>i32\<close>) in a file of two
  rows of 20 bytes; the variable region holds \<open>hi\<close>.\<close>

definition mismatch_table :: SchemaTable where
  "mismatch_table =
     \<lparr>validFor = 2, table_name = ''Mismatch'',
      columns =
        [\<lparr>col_name = Some ''A'', col_array = False, col_type = T_i32\<rparr>,
         \<lparr>col_name = Some ''B'', col_array = False, col_type = T_string\<rparr>,
         \<lparr>col_name = Some ''C'', col_array = False, col_type = T_string\<rparr>,
         \<lparr>col_name = Some ''D'', col_array = False, col_type = T_i32\<rparr>]\<rparr>"

definition mismatch_parser :: DATParser where
  "mismatch_parser =
     new_DATParser \<lparr>version = 1, createdAt = 0, tables = [mismatch_table]\<rparr> True"

definition mismatch_buffer :: buffer where
  "mismatch_buffer =
     [2, 0, 0, 0,
      7, 0, 0, 0,  8, 0, 0, 0, 0, 0, 0, 0,  0xFF, 0xFF, 0xFF, 0xFF, 0xFF, 0xFF, 0xFF, 0xFF,
      9, 0, 0, 0,  8, 0, 0, 0, 0, 0, 0, 0,  8, 0, 0, 0, 0, 0, 0, 0,
      0xBB, 0xBB, 0xBB, 0xBB, 0xBB, 0xBB, 0xBB, 0xBB,
      0x68, 0, 0x69, 0, 0, 0, 0, 0]"

text \<open>A table with a column that is itself named \<open>_rid\<close>, and a file of one row.\<close>

definition rid_table :: SchemaTable where
  "rid_table =
     \<lparr>validFor = 2, table_name = ''Shadow'',
      columns = [\<lparr>col_name = Some ''_rid'', col_array = False, col_type = T_i32\<rparr>]\<rparr>"

definition rid_parser :: DATParser where
  "rid_parser = new_DATParser \<lparr>version = 1, createdAt = 0, tables = [rid_table]\<rparr> True"

definition rid_buffer :: buffer where
  "rid_buffer = [1, 0, 0, 0,  7, 0, 0, 0,  0xBB, 0xBB, 0xBB, 0xBB, 0xBB, 0xBB, 0xBB, 0xBB]"

section \<open>The container reader (GGPKReader)\<close>

text \<open>
  The runtime is a parameter: \<open>pread pos len\<close> is the positioned read of the open file
  (\<open>readSync\<close> with a position), returning the bytes it could read, at most \<open>len\<close>;
  \<open>kMaxLength\<close> is the largest \<open>Buffer\<close> the runtime allocates.
\<close>

record runtime =
  pread :: "int \<Rightarrow> int \<Rightarrow> js_error + buffer"
  kMaxLength :: int

text \<open>\<open>readAtOffset\<close>: a zero-filled buffer of \<open>len\<close> bytes, overwritten from its start
  with what the read returns.\<close>

definition readAtOffset :: "runtime \<Rightarrow> int \<Rightarrow> int \<Rightarrow> js_error + buffer" where
  "readAtOffset rt offset len =
     (if len < 0 \<or> kMaxLength rt < len then Inl RangeError
      else
        (case pread rt (Number offset) len of
           Inl err \<Rightarrow> Inl err
         | Inr bs \<Rightarrow> Inr (take (nat len) (bs @ replicate (nat len) 0))))"

definition ascii :: "string \<Rightarrow> buffer" where
  "ascii s = map of_char s"

record FileRecord =
  file_offset :: int
  file_length :: int
  file_name :: jsstring
  file_hash :: buffer
  dataOffset :: int
  dataLength :: int

record DirectoryRecord =
  dir_offset :: int
  dir_length :: int
  dir_name :: jsstring
  dir_hash :: buffer
  entries :: "int list"

record FreeRecord =
  free_offset :: int
  free_length :: int
  nextFreeOffset :: int

datatype Record = FILE FileRecord | PDIR DirectoryRecord | FREE FreeRecord

text \<open>\<open>parseFileRecordLazy\<close>: two reads, the first for the name length, the second for
  the header without the payload; \<open>pos\<close> is advanced as in the source.\<close>

definition parseFileRecordLazy :: "runtime \<Rightarrow> int \<Rightarrow> int \<Rightarrow> js_error + FileRecord" where
  "parseFileRecordLazy rt offset totalLength =
     (case readAtOffset rt offset 16 of
        Inl err \<Rightarrow> Inl err
      | Inr metaHeader \<Rightarrow>
     (case readUInt32LE metaHeader 8 of
        Inl err \<Rightarrow> Inl err
      | Inr nameLength \<Rightarrow>
          let headerSize = 8 + 4 + 32 + nameLength * 2 in
          (case readAtOffset rt offset headerSize of
             Inl err \<Rightarrow> Inl err
           | Inr headerBuffer \<Rightarrow>
               let pos0 = 8;
                   pos1 = pos0 + 4;
                   hash = slice_bytes headerBuffer pos1 (pos1 + 32);
                   pos2 = pos1 + 32;
                   nameBuffer = slice_bytes headerBuffer pos2 (pos2 + (nameLength - 1) * 2);
                   name = utf16le nameBuffer;
                   pos3 = pos2 + nameLength * 2
               in Inr \<lparr>file_offset = offset, file_length = totalLength, file_name = name,
                       file_hash = hash, dataOffset = offset + pos3,
                       dataLength = totalLength - pos3\<rparr>)))"

fun read_entries :: "buffer \<Rightarrow> nat \<Rightarrow> int \<Rightarrow> int list \<Rightarrow> js_error + int list" where
  "read_entries buf 0 pos acc = Inr acc"
| "read_entries buf (Suc n) pos acc =
     (case readBigInt64LE buf (pos + 4) of
        Inl err \<Rightarrow> Inl err
      | Inr child \<Rightarrow> read_entries buf n (pos + 4 + 8) (acc @ [child]))"

definition parseDirectoryRecord :: "int \<Rightarrow> buffer \<Rightarrow> js_error + DirectoryRecord" where
  "parseDirectoryRecord offset buf =
     (case readUInt32LE buf 8 of
        Inl err \<Rightarrow> Inl err
      | Inr nameLength \<Rightarrow>
     (case readUInt32LE buf 12 of
        Inl err \<Rightarrow> Inl err
      | Inr entriesCount \<Rightarrow>
          let hash = slice_bytes buf 16 (16 + 32);
              pos = 16 + 32;
              name = utf16le (slice_bytes buf pos (pos + (nameLength - 1) * 2))
          in
          (case read_entries buf (nat entriesCount) (pos + nameLength * 2) [] of
             Inl err \<Rightarrow> Inl err
           | Inr es \<Rightarrow>
               Inr \<lparr>dir_offset = offset, dir_length = int (length buf), dir_name = name,
                    dir_hash = hash, entries = es\<rparr>)))"

definition parseFreeRecord :: "int \<Rightarrow> buffer \<Rightarrow> int \<Rightarrow> js_error + FreeRecord" where
  "parseFreeRecord offset buf recordLength =
     map_sum id
       (\<lambda>n. \<lparr>free_offset = offset, free_length = recordLength, nextFreeOffset = n\<rparr>)
       (readBigUInt64LE buf 8)"

text \<open>\<open>readRecord\<close>. The tag is compared as bytes: four bytes decode to the text \<open>FILE\<close>
  exactly when they are its ASCII codes.\<close>

definition readRecord :: "runtime \<Rightarrow> int \<Rightarrow> js_error + Record" where
  "readRecord rt offset =
     (case readAtOffset rt offset 8 of
        Inl err \<Rightarrow> Inl err
      | Inr headerBuffer \<Rightarrow>
     (case readUInt32LE headerBuffer 0 of
        Inl err \<Rightarrow> Inl err
      | Inr len \<Rightarrow>
          let tag = slice_bytes headerBuffer 4 8 in
          if len < 8 then Inl Error
          else if tag = ascii ''FILE'' then map_sum id FILE (parseFileRecordLazy rt offset len)
          else if tag = ascii ''PDIR'' then
            (case readAtOffset rt offset len of
               Inl err \<Rightarrow> Inl err
             | Inr pdirBuffer \<Rightarrow> map_sum id PDIR (parseDirectoryRecord offset pdirBuffer))
          else if tag = ascii ''FREE'' then
            (case readAtOffset rt offset (min len 24) of
               Inl err \<Rightarrow> Inl err
             | Inr freeBuffer \<Rightarrow> map_sum id FREE (parseFreeRecord offset freeBuffer len))
          else Inl Error))"

text \<open>A runtime over a file held in memory, and an archive of one \<open>FILE\<close> record: name
  \<open>a\<close> with its terminator (name length 2), payload \<open>hello\<close>.\<close>

definition memory_runtime :: "buffer \<Rightarrow> runtime" where
  "memory_runtime file =
     \<lparr>pread = (\<lambda>pos len. if pos < 0 then Inl RangeError
                          else Inr (take (nat len) (drop (nat pos) file))),
      kMaxLength = 2 ^ 32\<rparr>"

definition file_record_example :: buffer where
  "file_record_example =
     [53, 0, 0, 0] @ ascii ''FILE'' @ [2, 0, 0, 0] @ replicate 32 0 @ [0x61, 0, 0, 0]
       @ ascii ''hello''"

section \<open>The parallel decode driver (parallel-parser.ts)\<close>

text \<open>\<open>Math.ceil(n / a)\<close> for a positive worker count \<open>a\<close>; task counts are far below
  \<open>2 ^ 53\<close>, where the quotient of doubles and its ceiling are exact.\<close>

definition ceil_div :: "nat \<Rightarrow> nat \<Rightarrow> nat" where
  "ceil_div n a = (n + a - 1) div a"

text \<open>The loop \<open>for (let i = 0; i < tasks.length; i += batchSize)\<close>. With a batch size of
  zero it would not end; that is the value \<open>None\<close>.\<close>

function batch_loop :: "'a list \<Rightarrow> nat \<Rightarrow> nat \<Rightarrow> 'a list list \<Rightarrow> 'a list list option" where
  "batch_loop tasks batchSize i batches =
     (if i < length tasks then
        (if batchSize = 0 then None
         else batch_loop tasks batchSize (i + batchSize)
                (batches @ [take batchSize (drop i tasks)]))
      else Some batches)"
  by pat_completeness auto
termination
  by (relation "measure (\<lambda>(tasks, batchSize, i, batches). length tasks - i)") auto

declare batch_loop.simps [simp del]

text \<open>\<open>options.concurrency || Math.max(1, cpus().length - 1)\<close>: an absent and a zero
  concurrency are both falsy.\<close>

definition numWorkers_of :: "nat option \<Rightarrow> nat \<Rightarrow> nat" where
  "numWorkers_of concurrency cpus =
     (case concurrency of
        None \<Rightarrow> max 1 (cpus - 1)
      | Some c \<Rightarrow> if c = 0 then max 1 (cpus - 1) else c)"

text \<open>The batches of \<open>parseAllDatFilesParallel\<close>; with no file the function has returned
  before. Every batch is then given to \<open>runWorkerBatch\<close>, which creates one worker.\<close>

definition split_batches :: "'a list \<Rightarrow> nat \<Rightarrow> 'a list list option" where
  "split_batches tasks numWorkers =
     (if tasks = [] then Some []
      else
        let actualWorkers = min numWorkers (length tasks);
            batchSize = ceil_div (length tasks) actualWorkers
        in batch_loop tasks batchSize 0 [])"

section \<open>The bundle extractor (bundle-extractor.ts)\<close>

record ExtractionResult =
  extracted :: int
  missed :: int
  total :: int

text \<open>\<open>\d\<close> matches the ASCII digits.\<close>

definition is_digit :: "char \<Rightarrow> bool" where
  "is_digit c \<longleftrightarrow> 48 \<le> (of_char c :: nat) \<and> (of_char c :: nat) \<le> 57"

fun strip_prefix :: "string \<Rightarrow> string \<Rightarrow> string option" where
  "strip_prefix [] s = Some s"
| "strip_prefix (p # ps) [] = None"
| "strip_prefix (p # ps) (c # cs) = (if p = c then strip_prefix ps cs else None)"

text \<open>
  A match of \<open>/Done, (\d+)\/(\d+) extracted, (\d+) missed/\<close> that starts at the head of
  the text. Every \<open>\d+\<close> is followed by a character that is no digit, so the longest run
  of digits is the only one a backtracking matcher can succeed with.
\<close>

definition match_here :: "string \<Rightarrow> (string \<times> string \<times> string) option" where
  "match_here s =
     (case strip_prefix ''Done, '' s of
        None \<Rightarrow> None
      | Some s1 \<Rightarrow>
          let d1 = takeWhile is_digit s1; s2 = dropWhile is_digit s1 in
          if d1 = [] then None
          else
            (case strip_prefix ''/'' s2 of
               None \<Rightarrow> None
             | Some s3 \<Rightarrow>
                 let d2 = takeWhile is_digit s3; s4 = dropWhile is_digit s3 in
                 if d2 = [] then None
                 else
                   (case strip_prefix '' extracted, '' s4 of
                      None \<Rightarrow> None
                    | Some s5 \<Rightarrow>
                        let d3 = takeWhile is_digit s5; s6 = dropWhile is_digit s5 in
                        if d3 = [] then None
                        else
                          (case strip_prefix '' missed'' s6 of
                             None \<Rightarrow> None
                           | Some s7 \<Rightarrow> Some (d1, d2, d3)))))"

text \<open>\<open>output.match(re)\<close> without the global flag: the leftmost match.\<close>

fun regex_match :: "string \<Rightarrow> (string \<times> string \<times> string) option" where
  "regex_match [] = match_here []"
| "regex_match (c # cs) =
     (case match_here (c # cs) of Some m \<Rightarrow> Some m | None \<Rightarrow> regex_match cs)"

fun dec_value :: "string \<Rightarrow> int \<Rightarrow> int" where
  "dec_value [] acc = acc"
| "dec_value (c # cs) acc = dec_value cs (acc * 10 + (of_char c - 48))"

text \<open>\<open>parseInt\<close> on a run of digits: their value as a double (ECMAScript fixes the
  result for up to 20 significant digits).\<close>

definition parseInt :: "string \<Rightarrow> int" where
  "parseInt ds = round53 (dec_value ds 0)"

text \<open>
  The end of \<open>extractBundledFiles\<close>, once the utility has run: \<open>exitCode\<close>, \<open>stdout\<close> and
  \<open>outputBuffer\<close> (the standard error read so far) are what the process gave, \<open>npatterns\<close>
  is \<open>patterns.length\<close>. Progress callbacks are left out.
\<close>

definition extractBundledFiles :: "int \<Rightarrow> string \<Rightarrow> string \<Rightarrow> nat \<Rightarrow> js_error + ExtractionResult" where
  "extractBundledFiles exitCode stdout outputBuffer npatterns =
     (let output = stdout @ [CHR 0x0A] @ outputBuffer in
      if exitCode \<noteq> 0 \<and> \<not> str_includes output ''Done,'' then Inl Error
      else
        (case regex_match output of
           Some (x, y, z) \<Rightarrow>
             Inr \<lparr>extracted = parseInt x, missed = parseInt z, total = parseInt y\<rparr>
         | None \<Rightarrow>
             Inr \<lparr>extracted = 0, missed = int npatterns, total = int npatterns\<rparr>))"

text \<open>The line the utility ends with.\<close>

definition done_line :: "nat \<Rightarrow> nat \<Rightarrow> nat \<Rightarrow> string" where
  "done_line x y z =
     ''Done, '' @ show_nat x @ ''/'' @ show_nat y @ '' extracted, '' @ show_nat z @ '' missed.''"

text \<open>What the utility may write to standard error for one extracted file.\<close>

definition utility_stderr :: string where
  "utility_stderr = ''Extracting: art/a.dds'' @ [CHR 0x0A] @ done_line 12 15 3 @ [CHR 0x0A]"

section \<open>The extraction pipeline (extraction-pipeline.ts)\<close>

text \<open>
  The file system is a map from path to content. What the pipeline cannot decide is a
  parameter: how a write ends, which paths can be unlinked, and the text that
  \<open>JSON.stringify(parsed, null, 2)\<close> gives for a decoded table. A write is not atomic:
  it ends with the whole content in place, or it is refused before the file is touched,
  or it breaks after the file was created or truncated and leaves some other content
  behind.
\<close>

type_synonym filesystem = "string \<rightharpoonup> buffer"

datatype write_outcome = Written | Refused | Broken buffer

record environment =
  write_file :: "string \<Rightarrow> buffer \<Rightarrow> write_outcome"
  can_unlink :: "string \<Rightarrow> bool"
  JSON_stringify :: "parse_result \<Rightarrow> buffer"

definition readFile :: "filesystem \<Rightarrow> string \<Rightarrow> js_error + buffer" where
  "readFile fs path = (case fs path of None \<Rightarrow> Inl Error | Some b \<Rightarrow> Inr b)"

text \<open>\<open>writeFile\<close>: a failure carries the file system it leaves behind.\<close>

definition writeFile ::
  "environment \<Rightarrow> filesystem \<Rightarrow> string \<Rightarrow> buffer \<Rightarrow> (js_error \<times> filesystem) + filesystem" where
  "writeFile env fs path content =
     (case write_file env path content of
        Written \<Rightarrow> Inr (fs(path \<mapsto> content))
      | Refused \<Rightarrow> Inl (Error, fs)
      | Broken left \<Rightarrow> Inl (Error, fs(path \<mapsto> left)))"

definition unlink :: "environment \<Rightarrow> filesystem \<Rightarrow> string \<Rightarrow> js_error + filesystem" where
  "unlink env fs path =
     (if fs path \<noteq> None \<and> can_unlink env path then Inr (fs(path := None)) else Inl Error)"

text \<open>\<open>path.basename\<close> with \<open>/\<close> as the separator.\<close>

definition basename :: "string \<Rightarrow> string" where
  "basename path = rev (takeWhile (\<lambda>c. c \<noteq> CHR ''/'') (rev path))"

definition ends_with :: "string \<Rightarrow> string \<Rightarrow> bool" where
  "ends_with s suffix \<longleftrightarrow>
     length suffix \<le> length s \<and> drop (length s - length suffix) s = suffix"

text \<open>\<open>s.replace(/\.datc?64$/i, r)\<close>: the pattern is anchored at the end, so the only
  match is the suffix \<open>.datc64\<close> or \<open>.dat64\<close>, in any case of letters; a text without
  such a suffix (a name ending in \<open>.dat\<close>, say) is returned as it is.\<close>

definition replace_dat_suffix :: "string \<Rightarrow> string \<Rightarrow> string" where
  "replace_dat_suffix s r =
     (if ends_with (toLowerCase s) ''.datc64'' then take (length s - 7) s @ r
      else if ends_with (toLowerCase s) ''.dat64'' then take (length s - 6) s @ r
      else s)"

record PipelineData =
  parsed :: nat
  failed :: nat

text \<open>
  One pass of the loop over \<open>datFiles\<close>: the whole body sits in a handler that counts a
  failure; the handler around \<open>unlink\<close> ignores its failure. \<open>parser\<close> is \<open>None\<close> when no
  schema could be loaded.
\<close>

definition parse_dat_file ::
  "environment \<Rightarrow> DATParser option \<Rightarrow> filesystem \<times> PipelineData \<Rightarrow> string
     \<Rightarrow> filesystem \<times> PipelineData" where
  "parse_dat_file env parser st file =
     (let (fs, res) = st;
          tableName = toLowerCase (replace_dat_suffix (basename file) []);
          count_failed = res\<lparr>failed := failed res + 1\<rparr>
      in
      case parser of
        None \<Rightarrow> (fs, count_failed)
      | Some p \<Rightarrow>
          (case readFile fs file of
             Inl err \<Rightarrow> (fs, count_failed)
           | Inr buf \<Rightarrow>
               (case parse p buf tableName of
                  Inl err \<Rightarrow> (fs, count_failed)
                | Inr result \<Rightarrow>
                    if 0 < length (rows result) then
                      let jsonPath = replace_dat_suffix file ''.json'' in
                      (case writeFile env fs jsonPath (JSON_stringify env result) of
                         Inl (err, fs1) \<Rightarrow> (fs1, count_failed)
                       | Inr fs' \<Rightarrow>
                           let fs'' = (case unlink env fs' file of
                                         Inl err \<Rightarrow> fs' | Inr fs2 \<Rightarrow> fs2)
                           in (fs'', res\<lparr>parsed := parsed res + 1\<rparr>))
                    else (fs, count_failed))))"

fun parse_dat_files ::
  "environment \<Rightarrow> DATParser option \<Rightarrow> string list \<Rightarrow> filesystem \<times> PipelineData
     \<Rightarrow> filesystem \<times> PipelineData" where
  "parse_dat_files env parser [] st = st"
| "parse_dat_files env parser (file # files) st =
     parse_dat_files env parser files (parse_dat_file env parser st file)"

text \<open>An environment in which every write and unlink succeeds, and one in which every
  write breaks and leaves an empty file; the text of a result is left empty. A file
  with an empty table (row count 0).\<close>

definition plain_environment :: environment where
  "plain_environment =
     \<lparr>write_file = (\<lambda>p c. Written), can_unlink = (\<lambda>p. True), JSON_stringify = (\<lambda>r. [])\<rparr>"

definition broken_disk_environment :: environment where
  "broken_disk_environment =
     \<lparr>write_file = (\<lambda>p c. Broken []), can_unlink = (\<lambda>p. True), JSON_stringify = (\<lambda>r. [])\<rparr>"

definition empty_table_buffer :: buffer where
  "empty_table_buffer = [0, 0, 0, 0]"

text \<open>A schema whose table carries the name that the loop derives from a file
  \<open>mismatch.dat\<close>: the pattern leaves the suffix \<open>.dat\<close> in place.\<close>

definition dat_named_parser :: DATParser where
  "dat_named_parser =
     new_DATParser
       \<lparr>version = 1, createdAt = 0,
        tables = [mismatch_table\<lparr>table_name := ''Mismatch.dat''\<rparr>]\<rparr> True"

section \<open>Properties\<close>

subsection \<open>Foreign rows\<close>

text \<open>
  C2. A foreign-row field whose stored signed 64-bit row id is \<open>-2\<close> (bytes
  \<open>FE FF FF FF FF FF FF FF\<close>, followed by the eight bytes of the table tag) does not decode
  to null: the field decodes to the number \<open>-2\<close>. The constant \<open>NULL_FOREIGN_ROW\<close> is the
  unsigned \<open>0xFFFFFFFFFFFFFFFE\<close>, which no signed 64-bit read ever equals.
\<close>

theorem foreignrow_minus_two_not_null:
  "readField [0xFE, 0xFF, 0xFF, 0xFF, 0xFF, 0xFF, 0xFF, 0xFF, 0, 0, 0, 0, 0, 0, 0, 0] 0 16
     T_foreignrow = Inr (JNum (- 2), 16)"
  by (simp add: readField_def readBigInt64LE_def readIntLE_def readUIntLE_def in_range_def
      bytes_at_def to_signed_def NULL_ROW_def NULL_FOREIGN_ROW_def NULL_MARKER_def Number_def
      round53_def)

subsection \<open>BigInt to number\<close>

lemma bit_length_pos: "0 < n \<Longrightarrow> bit_length n = Suc (bit_length (n div 2))"
  by (subst bit_length.simps) simp

lemma bit_length_nonpos: "n \<le> 0 \<Longrightarrow> bit_length n = 0"
  by (subst bit_length.simps) simp

lemma bit_length_upper: "0 \<le> n \<Longrightarrow> n < 2 ^ bit_length n"
proof (induction n rule: bit_length.induct)
  case (1 n)
  show ?case
  proof (cases "n \<le> 0")
    case True
    with "1.prems" show ?thesis by (simp add: bit_length_nonpos)
  next
    case False
    then have pos: "0 < n" by simp
    have "n div 2 < 2 ^ bit_length (n div 2)"
      using "1.IH" False pos by simp
    then have "n < 2 * 2 ^ bit_length (n div 2)" by linarith
    then show ?thesis by (simp add: bit_length_pos [OF pos])
  qed
qed

lemma bit_length_lower: "0 < n \<Longrightarrow> 2 ^ (bit_length n - 1) \<le> n"
proof (induction n rule: bit_length.induct)
  case (1 n)
  from "1.prems" have pos: "0 < n" .
  show ?case
  proof (cases "n div 2 = 0")
    case True
    then have "bit_length (n div 2) = 0" by (simp add: bit_length_nonpos)
    with pos show ?thesis by (simp add: bit_length_pos [OF pos])
  next
    case False
    with pos have p2: "0 < n div 2" by linarith
    have ih: "2 ^ (bit_length (n div 2) - 1) \<le> n div 2"
      using "1.IH" pos p2 by simp
    have "bit_length (n div 2) = Suc (bit_length (n div 2) - 1)"
      using bit_length_pos [OF p2] by simp
    then have "(2::int) ^ bit_length (n div 2) = 2 * 2 ^ (bit_length (n div 2) - 1)"
      by (metis power_Suc)
    also have "\<dots> \<le> 2 * (n div 2)" using ih by simp
    also have "\<dots> \<le> n" by linarith
    finally show ?thesis by (simp add: bit_length_pos [OF pos])
  qed
qed

lemma round53_small: "\<bar>n\<bar> < 2 ^ 53 \<Longrightarrow> round53 n = n"
  by (simp add: round53_def Let_def)

lemma round53_big_abs:
  assumes "2 ^ 53 \<le> \<bar>n\<bar>"
  shows "\<exists>m. 2 ^ 53 \<le> m \<and> round53 n = sgn n * m"
proof -
  define a where "a = \<bar>n\<bar>"
  define s where "s = bit_length a - 53"
  define q where "q = a div 2 ^ s"
  define r where "r = a mod 2 ^ s"
  define q' where "q' = (if 2 ^ (s - 1) < r \<or> (r = 2 ^ (s - 1) \<and> odd q) then q + 1 else q)"
  have apos: "0 < a" using assms by (simp add: a_def)
  have big: "2 ^ 53 \<le> a" using assms by (simp add: a_def)
  have "a < 2 ^ bit_length a" using bit_length_upper [of a] apos by simp
  with big have lt: "(2::int) ^ 53 < 2 ^ bit_length a" by linarith
  have bl: "53 < bit_length a" by (rule power_less_imp_less_exp [OF _ lt]) simp
  then have bl_eq: "bit_length a - 1 = 52 + s" by (simp add: s_def)
  have e1: "(2::int) ^ (bit_length a - 1) = 2 ^ 52 * 2 ^ s" by (simp only: bl_eq power_add)
  have le: "(2::int) ^ 52 * 2 ^ s \<le> a" using bit_length_lower [OF apos] by (simp only: e1)
  have pos2s: "(0::int) < 2 ^ s" by simp
  have "((2::int) ^ 52 * 2 ^ s) div 2 ^ s \<le> a div 2 ^ s" by (rule zdiv_mono1 [OF le pos2s])
  moreover have "((2::int) ^ 52 * 2 ^ s) div 2 ^ s = 2 ^ 52" by simp
  ultimately have "2 ^ 52 \<le> q" by (simp add: q_def)
  then have q52: "2 ^ 52 \<le> q'" by (simp add: q'_def)
  have s1: "1 \<le> s" using bl by (simp add: s_def)
  have "(2::int) ^ 1 \<le> 2 ^ s" by (rule power_increasing [OF s1]) simp
  then have two: "(2::int) \<le> 2 ^ s" by simp
  have "2 ^ 52 * 2 \<le> q' * 2 ^ s"
    by (rule mult_mono [OF q52 two]) (use q52 in auto)
  then have m: "2 ^ 53 \<le> q' * 2 ^ s" by simp
  have "round53 n = sgn n * (q' * 2 ^ s)"
    using big by (simp add: round53_def Let_def a_def [symmetric] s_def [symmetric] q_def [symmetric]
        r_def [symmetric] q'_def)
  with m show ?thesis by blast
qed

lemma round53_ge: "2 ^ 53 \<le> n \<Longrightarrow> 2 ^ 53 \<le> round53 n"
  using round53_big_abs [of n] by auto

lemma round53_le: "n \<le> - (2 ^ 53) \<Longrightarrow> round53 n \<le> - (2 ^ 53)"
  using round53_big_abs [of n] by auto


lemma Number_small: "\<bar>n\<bar> < 2 ^ 53 \<Longrightarrow> Number n = n"
  by (simp add: Number_def round53_small)

lemma Number_neg_iff: "Number n < 0 \<longleftrightarrow> n < 0"
proof (cases "\<bar>n\<bar> < 2 ^ 53")
  case True
  then show ?thesis by (simp add: Number_small)
next
  case False
  then consider "2 ^ 53 \<le> n" | "n \<le> - (2 ^ 53)" by linarith
  then show ?thesis
  proof cases
    case 1
    from round53_ge [OF 1] 1 show ?thesis by (simp add: Number_def)
  next
    case 2
    from round53_le [OF 2] 2 show ?thesis by (simp add: Number_def)
  qed
qed

lemma Number_less_iff:
  assumes "\<bar>c\<bar> < 2 ^ 53"
  shows "c < Number n \<longleftrightarrow> c < n"
proof (cases "\<bar>n\<bar> < 2 ^ 53")
  case True
  then show ?thesis by (simp add: Number_small)
next
  case False
  then consider "2 ^ 53 \<le> n" | "n \<le> - (2 ^ 53)" by linarith
  then show ?thesis
  proof cases
    case 1
    from round53_ge [OF 1] 1 assms show ?thesis unfolding Number_def by linarith
  next
    case 2
    from round53_le [OF 2] 2 assms show ?thesis unfolding Number_def by linarith
  qed
qed

lemma num_add_Number:
  assumes "0 \<le> a" "0 \<le> b" "L \<le> 2 ^ 53"
  shows "if a + b < L then num_add a (Number b) = a + b else L \<le> num_add a (Number b)"
proof (cases "a + b < 2 ^ 53")
  case True
  with assms have "\<bar>b\<bar> < 2 ^ 53" "\<bar>a + b\<bar> < 2 ^ 53" by simp_all
  then have "num_add a (Number b) = a + b"
    by (simp add: num_add_def Number_small round53_small)
  then show ?thesis by simp
next
  case False
  have "2 ^ 53 \<le> a + Number b"
  proof (cases "b < 2 ^ 53")
    case True
    with assms have "Number b = b" by (simp add: Number_small)
    with False show ?thesis by simp
  next
    case False
    then have "2 ^ 53 \<le> Number b" using round53_ge [of b] by (simp add: Number_def)
    with assms show ?thesis by simp
  qed
  then have "2 ^ 53 \<le> num_add a (Number b)"
    unfolding num_add_def by (rule round53_ge)
  with False assms show ?thesis by simp
qed

subsection \<open>Arrays\<close>

lemma int_le_div_iff:
  fixes i k n :: int
  assumes "0 < k"
  shows "(i \<le> n div k) = (i * k \<le> n)"
proof
  assume "i \<le> n div k"
  then have "i * k \<le> (n div k) * k" using assms by (simp add: mult_right_mono)
  moreover have "n = (n div k) * k + n mod k" by simp
  moreover have "0 \<le> n mod k" using assms by simp
  ultimately show "i * k \<le> n" by linarith
next
  assume "i * k \<le> n"
  then have "(i * k) div k \<le> n div k" using assms by (rule zdiv_mono1)
  then show "i \<le> n div k" using assms by simp
qed
lemma fits_iff:
  assumes "0 < sz"
  shows "(int (length buf) < d + i * sz + sz) = (elements_that_fit buf d sz \<le> i)"
proof -
  have "(i + 1 \<le> elements_that_fit buf d sz) = ((i + 1) * sz \<le> int (length buf) - d)"
    unfolding elements_that_fit_def by (rule int_le_div_iff [OF assms])
  also have "\<dots> = (d + i * sz + sz \<le> int (length buf))"
    by (simp add: algebra_simps)
  finally show ?thesis by linarith
qed

lemma readArray_loop_step:
  "readArray_loop buf vds ty sz count i eo vals =
     (if i < count then
        (if int (length buf) < eo + sz then vals
         else readArray_loop buf vds ty sz count (i + 1) (eo + sz)
                (vals @ [read_element buf vds ty eo]))
      else vals)"
  by (subst readArray_loop.simps) (simp add: read_element_def split: sum.splits prod.splits)

lemma readArray_loop_closed:
  assumes "0 < sz"
  shows "readArray_loop buf vds ty sz count i (d + i * sz) vals =
           vals @ map (\<lambda>j. read_element buf vds ty (d + j * sz))
                    [i..min count (elements_that_fit buf d sz) - 1]"
proof (induction "nat (count - i)" arbitrary: i vals)
  case 0
  then have "count \<le> i" by simp
  then show ?case by (subst readArray_loop_step) simp
next
  case (Suc n)
  then have lt: "i < count" by linarith
  show ?case
  proof (cases "elements_that_fit buf d sz \<le> i")
    case True
    then show ?thesis
      using lt by (subst readArray_loop_step) (simp add: fits_iff [OF assms])
  next
    case False
    then have le: "i \<le> min count (elements_that_fit buf d sz) - 1" using lt by simp
    have n: "n = nat (count - (i + 1))" using Suc.hyps(2) by linarith
    have eo: "d + i * sz + sz = d + (i + 1) * sz" by (simp add: algebra_simps)
    have "readArray_loop buf vds ty sz count i (d + i * sz) vals =
          readArray_loop buf vds ty sz count (i + 1) (d + (i + 1) * sz)
            (vals @ [read_element buf vds ty (d + i * sz)])"
    proof -
      have nf: "\<not> int (length buf) < d + i * sz + sz"
        using False by (simp add: fits_iff [OF assms])
      have nf': "\<not> int (length buf) < d + (i + 1) * sz"
        unfolding eo [symmetric] by (rule nf)
      show ?thesis
        by (subst readArray_loop_step) (simp only: lt nf nf' if_True if_False eo)
    qed
    also have "\<dots> = (vals @ [read_element buf vds ty (d + i * sz)]) @
        map (\<lambda>j. read_element buf vds ty (d + j * sz))
          [i + 1..min count (elements_that_fit buf d sz) - 1]"
      by (rule Suc.hyps(1) [OF n])
    also have "\<dots> = vals @ map (\<lambda>j. read_element buf vds ty (d + j * sz))
          [i..min count (elements_that_fit buf d sz) - 1]"
      by (simp add: upto_rec1 [OF le])
    finally show ?thesis .
  qed
qed


lemma readArray_loop_length:
  assumes "0 < sz" "0 \<le> count"
  shows "length (readArray_loop buf vds ty sz count 0 d []) \<le> nat count"
proof -
  have "readArray_loop buf vds ty sz count 0 (d + 0 * sz) [] =
      [] @ map (\<lambda>j. read_element buf vds ty (d + j * sz))
             [0..min count (elements_that_fit buf d sz) - 1]"
    by (rule readArray_loop_closed [OF assms(1)])
  then show ?thesis using assms(2) by simp
qed

lemma or_default_FIELD_SIZES: "or_default (FIELD_SIZES ty) 8 = FIELD_SIZES ty"
  by (cases ty) (simp_all add: or_default_def)

lemma FIELD_SIZES_pos: "0 < FIELD_SIZES ty"
  by (cases ty) simp_all

lemma Number_count:
  assumes "\<not> (100000 < Number len \<or> Number len < 0)"
  shows "Number len = len" and "0 \<le> len" and "len \<le> 100000"
proof -
  from assms have a: "\<not> 100000 < len" using Number_less_iff [of 100000 len] by simp
  from assms have b: "\<not> len < 0" using Number_neg_iff [of len] by simp
  from a b show "Number len = len" by (simp add: Number_small)
  from a b show "0 \<le> len" "len \<le> 100000" by simp_all
qed

lemma readArray_cases:
  assumes "readBigInt64LE buf offset = Inr len"
    and "readBigInt64LE buf (offset + 8) = Inr arrayOffset"
  shows "readArray buf offset vds ty =
     (if len = 0 \<or> arrayOffset < 0 \<or> 100000 < len \<or> len < 0 \<or> ty = T_array
         \<or> num_add vds (Number arrayOffset) < 0
         \<or> int (length buf) \<le> num_add vds (Number arrayOffset)
      then Inr ([], 16)
      else Inr (readArray_loop buf vds ty (FIELD_SIZES ty) len 0
                  (num_add vds (Number arrayOffset)) [], 16))"
proof (cases "100000 < Number len \<or> Number len < 0")
  case True
  then have "100000 < len \<or> len < 0"
    using Number_less_iff [of 100000 len] Number_neg_iff [of len] by simp
  with True show ?thesis
    using assms FIELD_SIZES_pos [of ty] by (auto simp: readArray_def Let_def)
next
  case False
  note n = Number_count [OF False]
  from n have "\<not> (100000 < len \<or> len < 0)" by simp
  with False n(1) show ?thesis
    using assms FIELD_SIZES_pos [of ty]
    by (auto simp: readArray_def Let_def or_default_FIELD_SIZES)
qed

lemma readArray_length:
  "case readArray buf offset vds ty of Inl e \<Rightarrow> True | Inr (vals, n) \<Rightarrow> length vals \<le> 100000"
proof (cases "readBigInt64LE buf offset")
  case (Inl e)
  then show ?thesis by (simp add: readArray_def)
next
  case len: (Inr len)
  show ?thesis
  proof (cases "readBigInt64LE buf (offset + 8)")
    case (Inl e)
    with len show ?thesis by (simp add: readArray_def)
  next
    case ao: (Inr arrayOffset)
    show ?thesis
    proof (cases "0 \<le> len \<and> len \<le> 100000")
      case True
      then have "length (readArray_loop buf vds ty (FIELD_SIZES ty) len 0
                  (num_add vds (Number arrayOffset)) []) \<le> nat len"
        by (intro readArray_loop_length FIELD_SIZES_pos) simp
      with True show ?thesis by (auto simp: readArray_cases [OF len ao])
    next
      case False
      then show ?thesis by (auto simp: readArray_cases [OF len ao])
    qed
  qed
qed

lemmas read_simps = readBigInt64LE_def readIntLE_def readUIntLE_def readUInt32LE_def
  in_range_def bytes_at_def to_signed_def

text \<open>
  C5. A decoded array never has more than 100000 elements. When the two header reads
  succeed: a recorded length that is negative or above 100000 decodes to the empty list;
  and for a length in range, with the data inside the buffer, the result is the list of
  the first \<open>min len fit\<close> elements, where \<open>fit\<close> counts the elements that end at or
  before the end of the buffer: the loop stops at the first element that would cross
  the end and returns what it has read. (The buffer is at most \<open>2 ^ 53\<close> bytes, as every
  \<open>Buffer\<close> is.)
\<close>

theorem readArray_bounded:
  "(case readArray buf offset vds ty of Inl e \<Rightarrow> True | Inr (vals, n) \<Rightarrow> length vals \<le> 100000) \<and>
   (readBigInt64LE buf offset = Inr len \<and> readBigInt64LE buf (offset + 8) = Inr arrayOffset \<longrightarrow>
      (len < 0 \<or> 100000 < len \<longrightarrow> readArray buf offset vds ty = Inr ([], 16)) \<and>
      (0 < len \<and> len \<le> 100000 \<and> ty \<noteq> T_array \<and> 0 \<le> vds \<and> 0 \<le> arrayOffset
         \<and> vds + arrayOffset < int (length buf) \<and> int (length buf) \<le> 2 ^ 53 \<longrightarrow>
       readArray buf offset vds ty =
         Inr (map (\<lambda>j. read_element buf vds ty (vds + arrayOffset + j * FIELD_SIZES ty))
                [0..min len (elements_that_fit buf (vds + arrayOffset) (FIELD_SIZES ty)) - 1], 16)))"
proof (intro conjI impI)
  show "case readArray buf offset vds ty of Inl e \<Rightarrow> True | Inr (vals, n) \<Rightarrow> length vals \<le> 100000"
    by (rule readArray_length)
next
  assume h: "readBigInt64LE buf offset = Inr len \<and> readBigInt64LE buf (offset + 8) = Inr arrayOffset"
  assume "len < 0 \<or> 100000 < len"
  then show "readArray buf offset vds ty = Inr ([], 16)"
    using h by (auto simp: readArray_cases)
next
  assume h: "readBigInt64LE buf offset = Inr len \<and> readBigInt64LE buf (offset + 8) = Inr arrayOffset"
  assume r: "0 < len \<and> len \<le> 100000 \<and> ty \<noteq> T_array \<and> 0 \<le> vds \<and> 0 \<le> arrayOffset
         \<and> vds + arrayOffset < int (length buf) \<and> int (length buf) \<le> 2 ^ 53"
  then have d: "num_add vds (Number arrayOffset) = vds + arrayOffset"
    using num_add_Number [of vds arrayOffset "int (length buf)"] by simp
  have "readArray buf offset vds ty =
      Inr (readArray_loop buf vds ty (FIELD_SIZES ty) len 0 (vds + arrayOffset) [], 16)"
    using h r by (simp add: readArray_cases d)
  also have "readArray_loop buf vds ty (FIELD_SIZES ty) len 0 (vds + arrayOffset) [] =
      map (\<lambda>j. read_element buf vds ty (vds + arrayOffset + j * FIELD_SIZES ty))
                [0..min len (elements_that_fit buf (vds + arrayOffset) (FIELD_SIZES ty)) - 1]"
    using readArray_loop_closed [where sz = "FIELD_SIZES ty" and i = 0 and d = "vds + arrayOffset"
        and vals = "[]" and count = len and buf = buf and vds = vds and ty = ty, OF FIELD_SIZES_pos]
    by simp
  finally show "readArray buf offset vds ty =
         Inr (map (\<lambda>j. read_element buf vds ty (vds + arrayOffset + j * FIELD_SIZES ty))
                [0..min len (elements_that_fit buf (vds + arrayOffset) (FIELD_SIZES ty)) - 1], 16)" .
qed

theorem readArray_bounded_witness:
  "readBigInt64LE array_example 0 = Inr 3 \<and> readBigInt64LE array_example (0 + 8) = Inr 0
   \<and> readArray array_example 0 16 T_i32 = Inr ([JNum 1, JNum 2], 16)
   \<and> readBigInt64LE long_array_example 0 = Inr 100001
   \<and> readBigInt64LE long_array_example (0 + 8) = Inr 0
   \<and> readArray long_array_example 0 16 T_i32 = Inr ([], 16)"
proof -
  have a1: "readBigInt64LE array_example 0 = Inr 3"
    by (simp add: array_example_def read_simps)
  have a2: "readBigInt64LE array_example (0 + 8) = Inr 0"
    by (simp add: array_example_def read_simps)
  have b1: "readBigInt64LE long_array_example 0 = Inr 100001"
    by (simp add: long_array_example_def read_simps)
  have b2: "readBigInt64LE long_array_example (0 + 8) = Inr 0"
    by (simp add: long_array_example_def read_simps)
  have len: "int (length array_example) = 26" by (simp add: array_example_def)
  have fit: "elements_that_fit array_example 16 4 = 2"
    by (simp add: elements_that_fit_def len)
  have e0: "read_element array_example 16 T_i32 16 = JNum 1"
    by (simp add: read_element_def readField_def readInt32LE_def array_example_def read_simps)
  have e1: "read_element array_example 16 T_i32 20 = JNum 2"
    by (simp add: read_element_def readField_def readInt32LE_def array_example_def read_simps)
  have u: "[0..1::int] = [0, 1]" by (simp add: upto_rec1)
  have "readArray array_example 0 16 T_i32 = Inr ([JNum 1, JNum 2], 16)"
    using readArray_bounded [of array_example 0 16 T_i32 3 0] a1 a2
    by (simp add: len fit u e0 e1)
  moreover have "readArray long_array_example 0 16 T_i32 = Inr ([], 16)"
    using readArray_bounded [of long_array_example 0 16 T_i32 100001 0] b1 b2 by simp
  ultimately show ?thesis using a1 a2 b1 b2 by simp
qed

subsection \<open>Strings\<close>

lemma le_uint_nonneg: "0 \<le> le_uint bs"
  by (induction bs) simp_all

lemma le_uint_zero_iff: "le_uint bs = 0 \<longleftrightarrow> (\<forall>b\<in>set bs. b = 0)"
proof (induction bs)
  case Nil
  show ?case by simp
next
  case (Cons b bs)
  have "0 \<le> uint b" by simp
  moreover have "0 \<le> le_uint bs" by (rule le_uint_nonneg)
  ultimately have "(uint b + 256 * le_uint bs = 0) = (uint b = 0 \<and> le_uint bs = 0)" by linarith
  with Cons show ?case by (simp add: uint_0_iff)
qed

lemma length_bytes_at: "in_range buf e (int n) \<Longrightarrow> length (bytes_at buf e n) = n"
  by (auto simp: in_range_def bytes_at_def)

lemma all_zero_4: "length bs = 4 \<Longrightarrow> (\<forall>b\<in>set bs. b = 0) = (bs = [0, 0, 0, (0::8 word)])"
  by (cases bs; cases "tl bs"; cases "tl (tl bs)"; cases "tl (tl (tl bs))") auto

lemma readUInt32LE_zero_iff:
  assumes "in_range buf e 4"
  shows "readUInt32LE buf e = Inr v \<longleftrightarrow> v = le_uint (bytes_at buf e 4)"
    and "le_uint (bytes_at buf e 4) = 0 \<longleftrightarrow> zero_run buf e"
proof -
  show "readUInt32LE buf e = Inr v \<longleftrightarrow> v = le_uint (bytes_at buf e 4)"
    using assms by (auto simp: readUInt32LE_def readUIntLE_def)
  have "length (bytes_at buf e 4) = 4" using assms length_bytes_at [of buf e 4] by simp
  then show "le_uint (bytes_at buf e 4) = 0 \<longleftrightarrow> zero_run buf e"
    by (simp add: le_uint_zero_iff all_zero_4 zero_run_def)
qed

lemma find_terminator_spec:
  assumes "0 \<le> p" "p \<le> int (length buf)"
  shows "\<exists>k. find_terminator buf p = Inr (p + 2 * int k)
           \<and> p + 2 * int k \<le> int (length buf)
           \<and> (\<forall>j<k. in_range buf (p + 2 * int j) 4 \<and> \<not> zero_run buf (p + 2 * int j))
           \<and> (\<not> in_range buf (p + 2 * int k) 4 \<or> zero_run buf (p + 2 * int k))"
  using assms
proof (induction buf p rule: find_terminator.induct)
  case (1 buf e)
  show ?case
  proof (cases "e + 4 \<le> int (length buf)")
    case False
    then have "find_terminator buf e = Inr e" by (subst find_terminator.simps) simp
    moreover have "\<not> in_range buf e 4" using False by (simp add: in_range_def)
    ultimately show ?thesis using "1.prems" by (intro exI [of _ 0]) simp
  next
    case True
    then have ir: "in_range buf e 4" using "1.prems" by (simp add: in_range_def)
    let ?v = "le_uint (bytes_at buf e 4)"
    have rd: "readUInt32LE buf e = Inr ?v" using readUInt32LE_zero_iff(1) [OF ir] by simp
    show ?thesis
    proof (cases "?v = 0")
      case z: True
      then have "find_terminator buf e = Inr e"
        using True rd by (subst find_terminator.simps) simp
      moreover have "zero_run buf e" using z readUInt32LE_zero_iff(2) [OF ir] by simp
      ultimately show ?thesis using "1.prems" by (intro exI [of _ 0]) simp
    next
      case nz: False
      then have nzr: "\<not> zero_run buf e" using readUInt32LE_zero_iff(2) [OF ir] by simp
      have step: "find_terminator buf e = find_terminator buf (e + 2)"
        using True rd nz by (subst find_terminator.simps) simp
      have "\<exists>k. find_terminator buf (e + 2) = Inr (e + 2 + 2 * int k)
           \<and> e + 2 + 2 * int k \<le> int (length buf)
           \<and> (\<forall>j<k. in_range buf (e + 2 + 2 * int j) 4 \<and> \<not> zero_run buf (e + 2 + 2 * int j))
           \<and> (\<not> in_range buf (e + 2 + 2 * int k) 4 \<or> zero_run buf (e + 2 + 2 * int k))"
        using "1.IH" [OF True rd nz] "1.prems" True by simp
      then obtain k where k: "find_terminator buf (e + 2) = Inr (e + 2 + 2 * int k)"
          "e + 2 + 2 * int k \<le> int (length buf)"
          "\<forall>j<k. in_range buf (e + 2 + 2 * int j) 4 \<and> \<not> zero_run buf (e + 2 + 2 * int j)"
          "\<not> in_range buf (e + 2 + 2 * int k) 4 \<or> zero_run buf (e + 2 + 2 * int k)"
        by blast
      have eq: "e + 2 + 2 * int j = e + 2 * int (Suc j)" for j by simp
      have all: "\<forall>j<Suc k. in_range buf (e + 2 * int j) 4 \<and> \<not> zero_run buf (e + 2 * int j)"
      proof (intro allI impI)
        fix j assume "j < Suc k"
        show "in_range buf (e + 2 * int j) 4 \<and> \<not> zero_run buf (e + 2 * int j)"
        proof (cases j)
          case 0
          with ir nzr show ?thesis by simp
        next
          case (Suc j')
          with \<open>j < Suc k\<close> have "j' < k" by simp
          with k(3) show ?thesis unfolding Suc eq [symmetric] by blast
        qed
      qed
      show ?thesis
        using step k(1,2,4) all unfolding eq by (intro exI [of _ "Suc k"]) simp
    qed
  qed
qed


lemma slice_bytes_within:
  assumes "0 \<le> p" "p + 2 * int k \<le> int (length buf)"
  shows "slice_bytes buf p (p + 2 * int k) = bytes_at buf p (2 * k)"
proof -
  have "max 0 (min p (int (length buf))) = p" using assms by simp
  moreover have "max 0 (min (p + 2 * int k) (int (length buf))) = p + 2 * int k"
    using assms by simp
  moreover have "nat (p + 2 * int k - p) = 2 * k" by simp
  ultimately show ?thesis by (simp add: slice_bytes_def bytes_at_def Let_def)
qed

lemma readString_spec:
  assumes "0 \<le> p" "p < int (length buf)"
  shows "\<exists>k. (\<forall>j<k. in_range buf (p + 2 * int j) 4 \<and> \<not> zero_run buf (p + 2 * int j))
           \<and> (\<not> in_range buf (p + 2 * int k) 4 \<or> zero_run buf (p + 2 * int k))
           \<and> readString buf p = Inr (utf16le (bytes_at buf p (2 * k)))"
proof -
  from find_terminator_spec [of p buf] assms
  obtain k where k: "find_terminator buf p = Inr (p + 2 * int k)"
      "p + 2 * int k \<le> int (length buf)"
      "\<forall>j<k. in_range buf (p + 2 * int j) 4 \<and> \<not> zero_run buf (p + 2 * int j)"
      "\<not> in_range buf (p + 2 * int k) 4 \<or> zero_run buf (p + 2 * int k)"
    by auto
  have "readString buf p = Inr (utf16le (bytes_at buf p (2 * k)))"
  proof (cases "k = 0")
    case True
    with k(1) assms show ?thesis by (simp add: readString_def bytes_at_def)
  next
    case False
    with k(1) assms show ?thesis
      by (simp add: readString_def slice_bytes_within [OF assms(1) k(2)])
  qed
  with k(3,4) show ?thesis by blast
qed

text \<open>
  C4. A string field whose eight bytes lie in the buffer (the magic offset
  \<open>variableDataStart\<close> is not negative, the buffer has at most \<open>2 ^ 53\<close> bytes, as every
  \<open>Buffer\<close> has): a negative stored offset decodes to null; a non-negative offset at
  or past the end of the buffer (counted from the magic marker,
  \<open>variableDataStart + strOffset\<close>) decodes to the empty string, with no error;
  otherwise the value is the UTF-16LE text of the bytes from
  \<open>variableDataStart + strOffset\<close> up to the first position, in steps of two bytes, that
  holds four zero bytes or has fewer than four bytes left.
\<close>

theorem string_field_decoding:
  assumes "readBigInt64LE buf offset = Inr strOffset"
    and "0 \<le> vds" and "int (length buf) \<le> 2 ^ 53"
  shows "(strOffset < 0 \<longrightarrow> readField buf offset vds T_string = Inr (JNull, 8)) \<and>
         (0 \<le> strOffset \<and> int (length buf) \<le> vds + strOffset \<longrightarrow>
            readField buf offset vds T_string = Inr (JStr [], 8)) \<and>
         (0 \<le> strOffset \<and> vds + strOffset < int (length buf) \<longrightarrow>
            (\<exists>k. (\<forall>j<k. in_range buf (vds + strOffset + 2 * int j) 4
                          \<and> \<not> zero_run buf (vds + strOffset + 2 * int j))
                \<and> (\<not> in_range buf (vds + strOffset + 2 * int k) 4
                     \<or> zero_run buf (vds + strOffset + 2 * int k))
                \<and> readField buf offset vds T_string =
                    Inr (JStr (utf16le (bytes_at buf (vds + strOffset) (2 * k))), 8)))"
proof (intro conjI impI)
  assume "strOffset < 0"
  then show "readField buf offset vds T_string = Inr (JNull, 8)"
    using assms(1) by (simp add: readField_def)
next
  assume a: "0 \<le> strOffset \<and> int (length buf) \<le> vds + strOffset"
  then have "int (length buf) \<le> num_add vds (Number strOffset)"
    using num_add_Number [of vds strOffset "int (length buf)"] assms(2,3) by simp
  then show "readField buf offset vds T_string = Inr (JStr [], 8)"
    using assms(1) a by (simp add: readField_def readString_def)
next
  assume a: "0 \<le> strOffset \<and> vds + strOffset < int (length buf)"
  then have p: "num_add vds (Number strOffset) = vds + strOffset"
    using num_add_Number [of vds strOffset "int (length buf)"] assms(2,3) by simp
  have "0 \<le> vds + strOffset" using a assms(2) by simp
  from readString_spec [OF this] a
  obtain k where k: "\<forall>j<k. in_range buf (vds + strOffset + 2 * int j) 4
                          \<and> \<not> zero_run buf (vds + strOffset + 2 * int j)"
      "\<not> in_range buf (vds + strOffset + 2 * int k) 4 \<or> zero_run buf (vds + strOffset + 2 * int k)"
      "readString buf (vds + strOffset) = Inr (utf16le (bytes_at buf (vds + strOffset) (2 * k)))"
    by blast
  have "readField buf offset vds T_string =
      Inr (JStr (utf16le (bytes_at buf (vds + strOffset) (2 * k))), 8)"
    using assms(1) a k(3) by (simp add: readField_def p)
  with k(1,2) show "\<exists>k. (\<forall>j<k. in_range buf (vds + strOffset + 2 * int j) 4
                          \<and> \<not> zero_run buf (vds + strOffset + 2 * int j))
                \<and> (\<not> in_range buf (vds + strOffset + 2 * int k) 4
                     \<or> zero_run buf (vds + strOffset + 2 * int k))
                \<and> readField buf offset vds T_string =
                    Inr (JStr (utf16le (bytes_at buf (vds + strOffset) (2 * k))), 8)"
    by blast
qed

theorem string_field_decoding_witness:
  "readBigInt64LE string_example 0 = Inr 8 \<and> (0::int) \<le> 8
   \<and> int (length string_example) \<le> 2 ^ 53
   \<and> (0::int) \<le> 8 \<and> (8::int) + 8 < int (length string_example)
   \<and> (\<exists>k. (\<forall>j<k. in_range string_example (8 + 8 + 2 * int j) 4
                          \<and> \<not> zero_run string_example (8 + 8 + 2 * int j))
                \<and> (\<not> in_range string_example (8 + 8 + 2 * int k) 4
                     \<or> zero_run string_example (8 + 8 + 2 * int k))
                \<and> readField string_example 0 8 T_string =
                    Inr (JStr (utf16le (bytes_at string_example (8 + 8) (2 * k))), 8))
   \<and> readField string_example 0 8 T_string = Inr (JStr [0x68, 0x69], 8)"
proof -
  have h1: "readBigInt64LE string_example 0 = Inr 8"
    by (simp add: string_example_def read_simps)
  have h2: "int (length string_example) \<le> 2 ^ 53" by (simp add: string_example_def)
  have h3: "(8::int) + 8 < int (length string_example)" by (simp add: string_example_def)
  have ft: "find_terminator string_example 16 = Inr 20"
    by (simp add: string_example_def find_terminator.simps [of _ 16]
        find_terminator.simps [of _ 18] find_terminator.simps [of _ 20] read_simps)
  have ev: "readField string_example 0 8 T_string = Inr (JStr [0x68, 0x69], 8)"
    using h1 ft
    by (simp add: readField_def Number_def num_add_def round53_def readString_def)
       (simp add: string_example_def slice_bytes_def)
  from string_field_decoding [OF h1 _ h2, of 8] h3 ev h1 h2 show ?thesis by simp
qed

subsection \<open>Foreign rows, every stored id\<close>

text \<open>A signed 64-bit read never equals the unsigned constant \<open>NULL_FOREIGN_ROW\<close>, so a
  foreign row is null exactly for the stored ids \<open>-1\<close> and \<open>NULL_MARKER\<close>; every other id,
  \<open>-2\<close> included, is converted with \<open>Number\<close>.\<close>

lemma le_uint_bound: "le_uint bs < 256 ^ length bs"
proof (induction bs)
  case Nil
  show ?case by simp
next
  case (Cons b bs)
  have "uint b < 256" using uint_bounded [of b] by simp
  moreover from Cons have "le_uint bs + 1 \<le> 256 ^ length bs" by simp
  then have "256 * (le_uint bs + 1) \<le> 256 * 256 ^ length bs" by simp
  ultimately show ?case by (simp add: algebra_simps)
qed

lemma readBigInt64LE_range:
  assumes "readBigInt64LE buf off = Inr v"
  shows "- (2 ^ 63) \<le> v \<and> v < 2 ^ 63"
proof -
  let ?bs = "bytes_at buf off 8"
  from assms have ir: "in_range buf off 8" and v: "v = to_signed 64 (le_uint ?bs)"
    by (auto simp: readBigInt64LE_def readIntLE_def readUIntLE_def split: if_splits)
  have "length ?bs = 8" using ir length_bytes_at [of buf off 8] by simp
  then have "le_uint ?bs < 256 ^ 8" using le_uint_bound [of ?bs] by simp
  moreover have "0 \<le> le_uint ?bs" by (rule le_uint_nonneg)
  ultimately show ?thesis by (simp add: v to_signed_def)
qed

lemma readField_foreignrow:
  assumes "readBigInt64LE buf off = Inr rid"
  shows "readField buf off vds T_foreignrow =
           Inr (if rid = - 1 \<or> rid = NULL_MARKER then JNull else JNum (Number rid), 16)"
proof -
  from readBigInt64LE_range [OF assms] have "rid \<noteq> NULL_FOREIGN_ROW"
    by (simp add: NULL_FOREIGN_ROW_def)
  with assms show ?thesis by (simp add: readField_def NULL_ROW_def)
qed

subsection \<open>Rows\<close>

lemma snd_parse_row: "snd (parse_row buf vds R cols i off) = off + R"
  by (simp add: parse_row_def Let_def split: prod.splits)

lemma parse_rows_step:
  "parse_rows buf vds R cols rc i off acc =
     (if i < rc then
        parse_rows buf vds R cols rc (i + 1) (off + R)
          (acc @ [fst (parse_row buf vds R cols i off)])
      else (acc, off))"
proof -
  obtain row off' where pr: "parse_row buf vds R cols i off = (row, off')"
    by (cases "parse_row buf vds R cols i off")
  then have "off' = off + R" using snd_parse_row [of buf vds R cols i off] by simp
  with pr show ?thesis
    by (subst parse_rows.simps) simp
qed

lemma parse_rows_closed:
  "parse_rows buf vds R cols rc i (s + i * R) acc =
     (acc @ map (\<lambda>j. fst (parse_row buf vds R cols j (s + j * R))) [i..rc - 1],
      s + max i rc * R)"
proof (induction "nat (rc - i)" arbitrary: i acc)
  case 0
  then have "rc \<le> i" by simp
  then show ?case by (subst parse_rows_step) (simp add: max_def)
next
  case (Suc n)
  then have lt: "i < rc" by linarith
  then have le: "i \<le> rc - 1" by simp
  have n: "n = nat (rc - (i + 1))" using Suc.hyps(2) by linarith
  have eo: "s + i * R + R = s + (i + 1) * R" by (simp add: algebra_simps)
  have "parse_rows buf vds R cols rc i (s + i * R) acc =
        parse_rows buf vds R cols rc (i + 1) (s + (i + 1) * R)
          (acc @ [fst (parse_row buf vds R cols i (s + i * R))])"
    by (subst parse_rows_step) (simp only: lt if_True eo)
  also have "\<dots> = ((acc @ [fst (parse_row buf vds R cols i (s + i * R))]) @
        map (\<lambda>j. fst (parse_row buf vds R cols j (s + j * R))) [i + 1..rc - 1],
        s + max (i + 1) rc * R)"
    by (rule Suc.hyps(1) [OF n])
  also have "\<dots> = (acc @ map (\<lambda>j. fst (parse_row buf vds R cols j (s + j * R))) [i..rc - 1],
      s + max i rc * R)"
    using lt by (simp add: upto_rec1 [OF le] max_def)
  finally show ?case .
qed

lemma parse_known:
  assumes "getTableSchema p tableName = Some table"
    and "readUInt32LE buf 0 = Inr rc" and "0 < rc"
    and "indexOf buf VARIABLE_DATA_MAGIC 4 = m" and "m \<noteq> - 1"
  shows "parse p buf tableName =
     Inr \<lparr>rows = map (\<lambda>j. fst (parse_row buf m ((m - 4) div rc) (columns table) j
                                 (4 + j * ((m - 4) div rc)))) [0..rc - 1],
          rowCount = rc, error = None\<rparr>"
proof -
  have len: "\<not> length buf < 4"
    using assms(2) by (auto simp: readUInt32LE_def readUIntLE_def in_range_def split: if_splits)
  have "parse_rows buf m ((m - 4) div rc) (columns table) rc 0 (4 + 0 * ((m - 4) div rc)) [] =
      ([] @ map (\<lambda>j. fst (parse_row buf m ((m - 4) div rc) (columns table) j
                                 (4 + j * ((m - 4) div rc)))) [0..rc - 1],
       4 + max 0 rc * ((m - 4) div rc))"
    by (rule parse_rows_closed)
  then show ?thesis
    using assms len by (simp add: parse_def Let_def)
qed

lemma mismatch_known: "getTableSchema mismatch_parser ''mismatch'' = Some mismatch_table"
  by code_simp

lemma mismatch_count: "readUInt32LE mismatch_buffer 0 = Inr 2"
  by code_simp

lemma mismatch_magic: "indexOf mismatch_buffer VARIABLE_DATA_MAGIC 4 = 44"
  by code_simp

text \<open>
  C1. For a known table, a row count \<open>rc > 0\<close> and the magic found at \<open>m\<close>, \<open>parse\<close>
  works with the row size \<open>R = (m - 4) div rc\<close> taken from the data, whatever the schema's
  row size is: row \<open>j\<close> is decoded from the cursor \<open>4 + j * R\<close>, after every row the cursor
  is the row's start plus \<open>R\<close> whatever its columns consumed, and the \<open>rc\<close> rows of \<open>R\<close> bytes
  end at or before the magic.
\<close>

theorem parse_row_size:
  assumes "getTableSchema p tableName = Some table"
    and "readUInt32LE buf 0 = Inr rc" and "0 < rc"
    and "indexOf buf VARIABLE_DATA_MAGIC 4 = m" and "m \<noteq> - 1"
  shows "parse p buf tableName =
           Inr \<lparr>rows = map (\<lambda>j. fst (parse_row buf m ((m - 4) div rc) (columns table) j
                                       (4 + j * ((m - 4) div rc)))) [0..rc - 1],
                rowCount = rc, error = None\<rparr>
         \<and> (\<forall>j off. snd (parse_row buf m ((m - 4) div rc) (columns table) j off)
                       = off + (m - 4) div rc)
         \<and> 4 + rc * ((m - 4) div rc) \<le> m"
proof (intro conjI allI)
  show "parse p buf tableName =
           Inr \<lparr>rows = map (\<lambda>j. fst (parse_row buf m ((m - 4) div rc) (columns table) j
                                       (4 + j * ((m - 4) div rc)))) [0..rc - 1],
                rowCount = rc, error = None\<rparr>"
    using assms by (rule parse_known)
next
  fix j off
  show "snd (parse_row buf m ((m - 4) div rc) (columns table) j off) = off + (m - 4) div rc"
    by (rule snd_parse_row)
next
  have "(m - 4) div rc * rc \<le> m - 4"
    using assms(3) int_le_div_iff [of rc "(m - 4) div rc" "m - 4"] by simp
  then show "4 + rc * ((m - 4) div rc) \<le> m" by (simp add: mult.commute)
qed

theorem parse_row_size_witness:
  "getTableSchema mismatch_parser ''mismatch'' = Some mismatch_table
   \<and> readUInt32LE mismatch_buffer 0 = Inr 2 \<and> (0::int) < 2
   \<and> indexOf mismatch_buffer VARIABLE_DATA_MAGIC 4 = 44 \<and> (44::int) \<noteq> - 1
   \<and> calculateRowSize mismatch_table = 24
   \<and> parse mismatch_parser mismatch_buffer ''mismatch'' =
        Inr \<lparr>rows = map (\<lambda>j. fst (parse_row mismatch_buffer 44 20 (columns mismatch_table) j
                                    (4 + j * 20))) [0..1],
             rowCount = 2, error = None\<rparr>
   \<and> (\<forall>j off. snd (parse_row mismatch_buffer 44 20 (columns mismatch_table) j off) = off + 20)"
proof -
  have "calculateRowSize mismatch_table = 24" by code_simp
  then show ?thesis
    using parse_row_size [OF mismatch_known mismatch_count _ mismatch_magic]
      mismatch_known mismatch_count mismatch_magic
    by simp
qed

text \<open>
  C3. A size mismatch is not reported. The example table has schema row size 24 and
  observed row size 20; \<open>parse\<close> returns both rows and no error text.
\<close>

theorem size_mismatch_no_warning_counterexample:
  "calculateRowSize mismatch_table = 24
   \<and> (indexOf mismatch_buffer VARIABLE_DATA_MAGIC 4 - 4) div 2 = 20
   \<and> parse mismatch_parser mismatch_buffer ''mismatch'' =
        Inr \<lparr>rows =
               [[(''_rid'', JNum 0), (''A'', JNum 7), (''B'', JStr [104, 105]), (''C'', JNull)],
                [(''_rid'', JNum 1), (''A'', JNum 9), (''B'', JStr [104, 105]),
                 (''C'', JStr [104, 105])]],
             rowCount = 2, error = None\<rparr>"
  by code_simp

text \<open>
  C3, as the code has it: for a known table, a row count \<open>rc > 0\<close> and the magic present,
  a schema row size different from the observed one still yields a result with \<open>rc\<close> rows
  and the \<open>error\<close> field absent; the result carries no warning.
\<close>

theorem size_mismatch_silent:
  assumes "getTableSchema p tableName = Some table"
    and "readUInt32LE buf 0 = Inr rc" and "0 < rc"
    and "indexOf buf VARIABLE_DATA_MAGIC 4 = m" and "m \<noteq> - 1"
    and "calculateRowSize table \<noteq> (m - 4) div rc"
  shows "\<exists>r. parse p buf tableName = Inr r \<and> error r = None \<and> rowCount r = rc
              \<and> int (length (rows r)) = rc"
  using assms(3) by (simp add: parse_known [OF assms(1-5)])

theorem size_mismatch_silent_witness:
  "getTableSchema mismatch_parser ''mismatch'' = Some mismatch_table
   \<and> readUInt32LE mismatch_buffer 0 = Inr 2 \<and> (0::int) < 2
   \<and> indexOf mismatch_buffer VARIABLE_DATA_MAGIC 4 = 44 \<and> (44::int) \<noteq> - 1
   \<and> calculateRowSize mismatch_table \<noteq> (44 - 4) div 2
   \<and> (\<exists>r. parse mismatch_parser mismatch_buffer ''mismatch'' = Inr r \<and> error r = None
            \<and> rowCount r = 2 \<and> int (length (rows r)) = 2)"
proof -
  have ne: "calculateRowSize mismatch_table \<noteq> (44 - 4) div 2" by code_simp
  from size_mismatch_silent [OF mismatch_known mismatch_count _ mismatch_magic _ ne]
  have "\<exists>r. parse mismatch_parser mismatch_buffer ''mismatch'' = Inr r \<and> error r = None
            \<and> rowCount r = 2 \<and> int (length (rows r)) = 2"
    by simp
  with ne mismatch_known mismatch_count mismatch_magic show ?thesis by simp
qed

subsection \<open>Row identifiers\<close>

lemma obj_get_obj_set: "obj_get (obj_set ob k v) k' = (if k' = k then Some v else obj_get ob k')"
  by (induction ob) (auto simp: obj_get_def)

lemma fieldName_of_not_rid:
  assumes "col_name c \<noteq> Some ''_rid''"
  shows "fieldName_of c idx \<noteq> ''_rid''"
  using assms by (cases "col_name c") (auto simp: fieldName_of_def)

lemma parse_columns_rid:
  assumes "\<forall>c\<in>set cols. col_name c \<noteq> Some ''_rid''"
  shows "obj_get (fst (parse_columns buf vds rowStart R cols idx (row, off))) ''_rid''
           = obj_get row ''_rid''"
  using assms
proof (induction cols arbitrary: idx row off)
  case Nil
  show ?case by simp
next
  case (Cons c cols)
  then have nm: "fieldName_of c idx \<noteq> ''_rid''" by (simp add: fieldName_of_not_rid)
  have ih: "obj_get (fst (parse_columns buf vds rowStart R cols (Suc idx) (obj_set row (fieldName_of c idx) v, off'))) ''_rid''
      = obj_get row ''_rid''" for v off'
    using Cons.IH [of "Suc idx" "obj_set row (fieldName_of c idx) v" off'] Cons.prems nm
    by (simp add: obj_get_obj_set)
  show ?case
    by (simp add: Let_def ih split: sum.splits prod.splits del: column_size.simps)
qed

lemma parse_row_rid:
  assumes "\<forall>c\<in>set cols. col_name c \<noteq> Some ''_rid''"
  shows "obj_get (fst (parse_row buf vds R cols i off)) ''_rid'' = Some (JNum i)"
proof -
  obtain row' off' where pc:
    "parse_columns buf vds off R cols 0 ([(''_rid'', JNum i)], off) = (row', off')"
    by (cases "parse_columns buf vds off R cols 0 ([(''_rid'', JNum i)], off)")
  have "obj_get row' ''_rid'' = obj_get [(''_rid'', JNum i)] ''_rid''"
    using parse_columns_rid [OF assms, of buf vds off R 0 "[(''_rid'', JNum i)]" off] pc by simp
  then show ?thesis by (simp add: parse_row_def pc obj_get_def)
qed

lemma parse_no_error:
  assumes "parse p buf tableName = Inr r" and "error r = None"
    and "readUInt32LE buf 0 = Inr rc" and "0 < rc"
  shows "\<exists>t. getTableSchema p tableName = Some t \<and> indexOf buf VARIABLE_DATA_MAGIC 4 \<noteq> - 1"
proof (cases "getTableSchema p tableName")
  case None
  with assms(1,2) show ?thesis by (auto simp: parse_def)
next
  case (Some t)
  have len: "\<not> length buf < 4"
    using assms(3) by (auto simp: readUInt32LE_def readUIntLE_def in_range_def split: if_splits)
  have "indexOf buf VARIABLE_DATA_MAGIC 4 \<noteq> - 1"
  proof
    assume "indexOf buf VARIABLE_DATA_MAGIC 4 = - 1"
    with Some len assms show False by (auto simp: parse_def Let_def)
  qed
  with Some show ?thesis by simp
qed

text \<open>
  C10. When \<open>parse\<close> returns without an error for a buffer whose row count \<open>rc\<close> is
  positive, and no column of the table is named \<open>_rid\<close>: there are \<open>rc\<close> rows, row \<open>i\<close>
  holds \<open>_rid = i\<close>, and row \<open>i\<close> is the decoding of the bytes at \<open>4 + i * R\<close> (file order).
\<close>

theorem parse_rid:
  assumes "parse p buf tableName = Inr r" and "error r = None"
    and "readUInt32LE buf 0 = Inr rc" and "0 < rc"
    and "getTableSchema p tableName = Some t"
    and "Some ''_rid'' \<notin> set (map col_name (columns t))"
  shows "int (length (rows r)) = rc
     \<and> (\<forall>i<length (rows r). obj_get (rows r ! i) ''_rid'' = Some (JNum (int i)))
     \<and> (\<forall>i<length (rows r).
           rows r ! i =
             fst (parse_row buf (indexOf buf VARIABLE_DATA_MAGIC 4)
                    ((indexOf buf VARIABLE_DATA_MAGIC 4 - 4) div rc) (columns t) (int i)
                    (4 + int i * ((indexOf buf VARIABLE_DATA_MAGIC 4 - 4) div rc))))"
proof -
  from parse_no_error [OF assms(1-4)] assms(5)
  have m: "indexOf buf VARIABLE_DATA_MAGIC 4 \<noteq> - 1" by simp
  let ?m = "indexOf buf VARIABLE_DATA_MAGIC 4"
  let ?R = "(?m - 4) div rc"
  let ?f = "\<lambda>j. fst (parse_row buf ?m ?R (columns t) j (4 + j * ?R))"
  from parse_known [OF assms(5) assms(3,4) refl m] assms(1)
  have r: "rows r = map ?f [0..rc - 1]" by simp
  have len: "int (length (rows r)) = rc" using assms(4) by (simp add: r)
  have nth: "rows r ! i = ?f (int i)" if "i < length (rows r)" for i
  proof -
    from that len have "0 + int i \<le> rc - 1" by simp
    then have "[0..rc - 1] ! i = 0 + int i" by (rule nth_upto)
    with that show ?thesis by (simp add: r)
  qed
  have cols: "\<forall>c\<in>set (columns t). col_name c \<noteq> Some ''_rid''"
    using assms(6) by (auto simp: image_iff)
  have rid: "obj_get (rows r ! i) ''_rid'' = Some (JNum (int i))" if "i < length (rows r)" for i
    using nth [OF that] parse_row_rid [OF cols] by simp
  show ?thesis using len rid nth by blast
qed

text \<open>C10 without the proviso: a column named \<open>_rid\<close> overwrites the row index with its
  own value (here 7 in row 0).\<close>

theorem parse_rid_counterexample:
  "parse rid_parser rid_buffer ''shadow'' =
     Inr \<lparr>rows = [[(''_rid'', JNum 7)]], rowCount = 1, error = None\<rparr>
   \<and> readUInt32LE rid_buffer 0 = Inr 1
   \<and> obj_get [(''_rid'', JNum 7)] ''_rid'' \<noteq> Some (JNum 0)"
  by code_simp

theorem parse_rid_witness:
  "parse mismatch_parser mismatch_buffer ''mismatch'' =
     Inr \<lparr>rows =
            [[(''_rid'', JNum 0), (''A'', JNum 7), (''B'', JStr [104, 105]), (''C'', JNull)],
             [(''_rid'', JNum 1), (''A'', JNum 9), (''B'', JStr [104, 105]),
              (''C'', JStr [104, 105])]],
          rowCount = 2, error = None\<rparr>
   \<and> readUInt32LE mismatch_buffer 0 = Inr 2 \<and> (0::int) < 2
   \<and> getTableSchema mismatch_parser ''mismatch'' = Some mismatch_table
   \<and> Some ''_rid'' \<notin> set (map col_name (columns mismatch_table))
   \<and> obj_get [(''_rid'', JNum 1), (''A'', JNum 9), (''B'', JStr [104, 105]),
              (''C'', JStr [104, 105])] ''_rid'' = Some (JNum 1)"
proof -
  let ?r = "\<lparr>rows =
            [[(''_rid'', JNum 0), (''A'', JNum 7), (''B'', JStr [104, 105]), (''C'', JNull)],
             [(''_rid'', JNum 1), (''A'', JNum 9), (''B'', JStr [104, 105]),
              (''C'', JStr [104, 105])]],
          rowCount = 2, error = None\<rparr>"
  have p: "parse mismatch_parser mismatch_buffer ''mismatch'' = Inr ?r" by code_simp
  have c: "Some ''_rid'' \<notin> set (map col_name (columns mismatch_table))"
    by (simp add: mismatch_table_def)
  have e: "error ?r = None" and z: "(0::int) < 2" by simp_all
  note th = parse_rid [OF p e mismatch_count z mismatch_known c]
  have a: "\<forall>i<length (rows ?r). obj_get (rows ?r ! i) ''_rid'' = Some (JNum (int i))"
    by (rule conjunct1 [OF conjunct2 [OF th]])
  have "obj_get (rows ?r ! 1) ''_rid'' = Some (JNum (int 1))"
    by (rule a [rule_format]) simp
  then show ?thesis using p c mismatch_count mismatch_known by simp
qed

subsection \<open>File records of the container\<close>

lemma map_sum_Inr_iff: "(map_sum f g x = Inr y) = (\<exists>z. x = Inr z \<and> y = g z)"
  by (cases x) auto

text \<open>
  C6. For a \<open>FILE\<close> record that \<open>readRecord\<close> decodes at \<open>offset\<close>, with \<open>L\<close> the record
  length read from its first four bytes and \<open>N\<close> the name length read from bytes 8 to 11:
  the payload starts \<open>8 + 4 + 32 + 2 * N\<close> bytes into the record, that is at the absolute
  offset \<open>offset + 44 + 2 * N\<close>, and its length is \<open>L - (8 + 4 + 32 + 2 * N)\<close>.
\<close>

theorem file_record_payload:
  assumes "readRecord rt offset = Inr (FILE rec)"
    and "readAtOffset rt offset 8 = Inr headerBuffer" and "readUInt32LE headerBuffer 0 = Inr L"
    and "readAtOffset rt offset 16 = Inr metaHeader" and "readUInt32LE metaHeader 8 = Inr N"
  shows "dataOffset rec - offset = 8 + 4 + 32 + 2 * N
       \<and> dataOffset rec = offset + 44 + 2 * N
       \<and> dataLength rec = L - (8 + 4 + 32 + 2 * N)
       \<and> file_length rec = L"
proof -
  from assms(1-3) have "parseFileRecordLazy rt offset L = Inr rec"
    by (auto simp: readRecord_def Let_def map_sum_Inr_iff split: if_splits sum.splits)
  with assms(4,5) show ?thesis
    by (auto simp: parseFileRecordLazy_def Let_def split: sum.splits)
qed

theorem file_record_payload_witness:
  "readRecord (memory_runtime file_record_example) 0 =
     Inr (FILE \<lparr>file_offset = 0, file_length = 53, file_name = [0x61],
                file_hash = replicate 32 0, dataOffset = 48, dataLength = 5\<rparr>)
   \<and> readAtOffset (memory_runtime file_record_example) 0 8 = Inr ([53, 0, 0, 0] @ ascii ''FILE'')
   \<and> readUInt32LE ([53, 0, 0, 0] @ ascii ''FILE'') 0 = Inr 53
   \<and> readAtOffset (memory_runtime file_record_example) 0 16 =
        Inr ([53, 0, 0, 0] @ ascii ''FILE'' @ [2, 0, 0, 0, 0, 0, 0, 0])
   \<and> readUInt32LE ([53, 0, 0, 0] @ ascii ''FILE'' @ [2, 0, 0, 0, 0, 0, 0, 0]) 8 = Inr 2
   \<and> (48::int) = 0 + 44 + 2 * 2 \<and> (5::int) = 53 - (8 + 4 + 32 + 2 * 2)"
proof -
  have r: "readRecord (memory_runtime file_record_example) 0 =
     Inr (FILE \<lparr>file_offset = 0, file_length = 53, file_name = [0x61],
                file_hash = replicate 32 0, dataOffset = 48, dataLength = 5\<rparr>)"
    by code_simp
  have h: "readAtOffset (memory_runtime file_record_example) 0 8 = Inr ([53, 0, 0, 0] @ ascii ''FILE'')"
    by code_simp
  have l: "readUInt32LE ([53, 0, 0, 0] @ ascii ''FILE'') 0 = Inr 53" by code_simp
  have m: "readAtOffset (memory_runtime file_record_example) 0 16 =
        Inr ([53, 0, 0, 0] @ ascii ''FILE'' @ [2, 0, 0, 0, 0, 0, 0, 0])"
    by code_simp
  have n: "readUInt32LE ([53, 0, 0, 0] @ ascii ''FILE'' @ [2, 0, 0, 0, 0, 0, 0, 0]) 8 = Inr 2"
    by code_simp
  from file_record_payload [OF r h l m n] r h l m n show ?thesis by simp
qed

subsection \<open>Batches of the parallel driver\<close>

lemma ceil_div_step:
  assumes "0 < B" "0 < n"
  shows "ceil_div n B = Suc (ceil_div (n - B) B)"
proof (cases "B \<le> n")
  case True
  then have e: "n + B - 1 = (n - B + B - 1) + B" using assms by simp
  have "ceil_div n B = ((n - B + B - 1) + B) div B" by (simp only: ceil_div_def e)
  also have "\<dots> = (n - B + B - 1) div B + 1"
    by (rule div_add_self2) (use assms in simp)
  also have "\<dots> = Suc (ceil_div (n - B) B)" by (simp only: ceil_div_def Suc_eq_plus1)
  finally show ?thesis .
next
  case False
  then have z: "n - B = 0" by simp
  have e: "n + B - 1 = (n - 1) + B" using assms by simp
  have "ceil_div n B = ((n - 1) + B) div B" by (simp only: ceil_div_def e)
  also have "\<dots> = (n - 1) div B + 1"
    by (rule div_add_self2) (use assms in simp)
  also have "(n - 1) div B = 0" using False assms by simp
  finally have "ceil_div n B = 1" by simp
  moreover have "ceil_div 0 B = 0" using assms by (simp add: ceil_div_def)
  ultimately show ?thesis by (simp add: z)
qed

lemma ceil_div_0: "0 < B \<Longrightarrow> ceil_div 0 B = 0"
  by (simp add: ceil_div_def)

lemma ceil_div_le_iff:
  assumes "0 < B"
  shows "ceil_div n B \<le> a \<longleftrightarrow> n \<le> a * B"
proof -
  have "(n + B - 1) div B < Suc a \<longleftrightarrow> n + B - 1 < Suc a * B"
    using assms by (simp add: div_less_iff_less_mult)
  also have "\<dots> \<longleftrightarrow> n \<le> a * B" using assms by auto
  finally have "(n + B - 1) div B < Suc a \<longleftrightarrow> n \<le> a * B" .
  then show ?thesis by (simp only: ceil_div_def less_Suc_eq_le)
qed

lemma ceil_div_mult_ge:
  assumes "0 < a"
  shows "n \<le> a * ceil_div n a"
proof -
  have "ceil_div n a \<le> ceil_div n a" by simp
  then have "n \<le> ceil_div n a * a" by (simp only: ceil_div_le_iff [OF assms])
  then show ?thesis by (simp add: mult.commute)
qed

lemma batch_loop_step:
  assumes "0 < B"
  shows "batch_loop tasks B i acc =
     (if i < length tasks then batch_loop tasks B (i + B) (acc @ [take B (drop i tasks)])
      else Some acc)"
  using assms by (subst batch_loop.simps) simp

lemma batch_loop_spec:
  assumes "0 < B"
  shows "\<exists>bs. batch_loop tasks B i acc = Some (acc @ bs)
            \<and> concat bs = drop i tasks
            \<and> length bs = ceil_div (length tasks - i) B
            \<and> (\<forall>b\<in>set (butlast bs). length b = B)
            \<and> (bs \<noteq> [] \<longrightarrow> 0 < length (last bs) \<and> length (last bs) \<le> B)"
proof (induction "length tasks - i" arbitrary: i acc rule: less_induct)
  case less
  show ?case
  proof (cases "i < length tasks")
    case False
    then have "batch_loop tasks B i acc = Some (acc @ [])"
      by (subst batch_loop_step [OF assms]) simp
    moreover have "length tasks - i = 0" using False by simp
    ultimately show ?thesis using False assms
      by (intro exI [of _ "[]"]) (simp add: ceil_div_0)
  next
    case True
    let ?c = "take B (drop i tasks)"
    have dec: "length tasks - (i + B) < length tasks - i" using True assms by simp
    from less [OF dec, of "acc @ [?c]"]
    obtain bs where bs: "batch_loop tasks B (i + B) (acc @ [?c]) = Some ((acc @ [?c]) @ bs)"
      "concat bs = drop (i + B) tasks"
      "length bs = ceil_div (length tasks - (i + B)) B"
      "\<forall>b\<in>set (butlast bs). length b = B"
      "bs \<noteq> [] \<longrightarrow> 0 < length (last bs) \<and> length (last bs) \<le> B"
      by blast
    have lc: "length ?c = min B (length tasks - i)" by simp
    have 1: "batch_loop tasks B i acc = Some (acc @ (?c # bs))"
      using True bs(1) by (subst batch_loop_step [OF assms]) simp
    have 2: "concat (?c # bs) = drop i tasks"
    proof -
      have "drop (i + B) tasks = drop B (drop i tasks)" by (simp only: drop_drop add.commute)
      with bs(2) have "concat bs = drop B (drop i tasks)" by (simp only:)
      then have "concat (?c # bs) = take B (drop i tasks) @ drop B (drop i tasks)"
        by (simp only: concat.simps)
      then show ?thesis by (simp only: append_take_drop_id)
    qed
    have 3: "length (?c # bs) = ceil_div (length tasks - i) B"
      using ceil_div_step [OF assms, of "length tasks - i"] True bs(3) by simp
    have ne: "length tasks - (i + B) > 0" if "bs \<noteq> []"
    proof (rule ccontr)
      assume "\<not> length tasks - (i + B) > 0"
      then have "length bs = 0" using bs(3) assms by (simp add: ceil_div_0)
      with that show False by simp
    qed
    have 4: "\<forall>b\<in>set (butlast (?c # bs)). length b = B"
    proof (cases "bs = []")
      case True
      then show ?thesis by simp
    next
      case False
      from ne [OF False] have "length ?c = B" by simp
      with False bs(4) show ?thesis by simp
    qed
    have 5: "0 < length (last (?c # bs)) \<and> length (last (?c # bs)) \<le> B"
    proof (cases "bs = []")
      case True
      with \<open>i < length tasks\<close> assms show ?thesis by simp
    next
      case False
      with bs(5) show ?thesis by simp
    qed
    from 1 2 3 4 5 show ?thesis by blast
  qed
qed

text \<open>
  C8. For a non-empty task list of \<open>N\<close> files and a configured concurrency \<open>c \<ge> 1\<close>, with
  \<open>B = \<lceil>N / min c N\<rceil>\<close>: the driver makes \<open>\<lceil>N / B\<rceil>\<close> batches, at most \<open>min c N\<close> of them;
  in order they make up the task list; every batch but the last has \<open>B\<close> tasks and the
  last has between 1 and \<open>B\<close>. Each batch is passed to \<open>runWorkerBatch\<close>, which creates
  one worker for it.
\<close>

theorem split_batches_shape:
  assumes "tasks \<noteq> []" and "1 \<le> c"
  shows "\<exists>bs. split_batches tasks (numWorkers_of (Some c) cpus) = Some bs
      \<and> concat bs = tasks
      \<and> length bs = ceil_div (length tasks) (ceil_div (length tasks) (min c (length tasks)))
      \<and> length bs \<le> min c (length tasks)
      \<and> (\<forall>b\<in>set (butlast bs). length b = ceil_div (length tasks) (min c (length tasks)))
      \<and> 0 < length (last bs)
      \<and> length (last bs) \<le> ceil_div (length tasks) (min c (length tasks))"
proof -
  let ?N = "length tasks"
  let ?a = "min c ?N"
  let ?B = "ceil_div ?N ?a"
  have N: "0 < ?N" using assms(1) by simp
  have a: "0 < ?a" using assms(2) N by simp
  have B: "0 < ?B" using a N by (simp add: ceil_div_step)
  have nw: "numWorkers_of (Some c) cpus = c" using assms(2) by (simp add: numWorkers_of_def)
  from batch_loop_spec [OF B, of tasks 0 "[]"]
  obtain bs where bs: "batch_loop tasks ?B 0 [] = Some bs" "concat bs = tasks"
      "length bs = ceil_div ?N ?B" "\<forall>b\<in>set (butlast bs). length b = ?B"
      "bs \<noteq> [] \<longrightarrow> 0 < length (last bs) \<and> length (last bs) \<le> ?B"
    by auto
  have sb: "split_batches tasks (numWorkers_of (Some c) cpus) = Some bs"
    using assms(1) bs(1) by (simp add: split_batches_def nw Let_def)
  have "?N \<le> ?a * ?B" by (rule ceil_div_mult_ge [OF a])
  then have le: "length bs \<le> ?a" by (simp only: bs(3) ceil_div_le_iff [OF B])
  have "bs \<noteq> []" using bs(2) assms(1) by auto
  with bs(5) have "0 < length (last bs)" "length (last bs) \<le> ?B" by simp_all
  with sb bs(2,3,4) le show ?thesis by blast
qed

text \<open>C8 as stated, with exactly \<open>min c N\<close> batches, fails for five tasks and a concurrency
  of four: the batch size is 2 and there are three batches, not four.\<close>

theorem split_batches_count_counterexample:
  "split_batches [1, 2, 3, 4, 5::nat] (numWorkers_of (Some 4) 8) = Some [[1, 2], [3, 4], [5]]
   \<and> length [[1, 2], [3, 4], [5::nat]] \<noteq> min 4 (length [1, 2, 3, 4, 5::nat])"
  by code_simp

theorem split_batches_shape_witness:
  "[1, 2, 3, 4, 5::nat] \<noteq> [] \<and> (1::nat) \<le> 4
   \<and> (\<exists>bs. split_batches [1, 2, 3, 4, 5::nat] (numWorkers_of (Some 4) 8) = Some bs
      \<and> concat bs = [1, 2, 3, 4, 5]
      \<and> length bs = 3
      \<and> length bs \<le> 4
      \<and> (\<forall>b\<in>set (butlast bs). length b = 2)
      \<and> 0 < length (last bs)
      \<and> length (last bs) \<le> 2)"
proof -
  let ?T = "[1, 2, 3, 4, 5::nat]"
  have c1: "ceil_div (length ?T) (min 4 (length ?T)) = 2" by code_simp
  have c2: "ceil_div (length ?T) 2 = 3" by code_simp
  have m: "min 4 (length ?T) = 4" by simp
  have ne: "?T \<noteq> []" and c: "(1::nat) \<le> 4" by simp_all
  from split_batches_shape [OF ne c, of 8]
  obtain bs where bs: "split_batches ?T (numWorkers_of (Some 4) 8) = Some bs"
      "concat bs = ?T"
      "length bs = ceil_div (length ?T) (ceil_div (length ?T) (min 4 (length ?T)))"
      "length bs \<le> min 4 (length ?T)"
      "\<forall>b\<in>set (butlast bs). length b = ceil_div (length ?T) (min 4 (length ?T))"
      "0 < length (last bs)"
      "length (last bs) \<le> ceil_div (length ?T) (min 4 (length ?T))"
    by blast
  have "length bs = 3" using bs(3) by (simp only: c1 c2)
  moreover have "length bs \<le> 4" using bs(4) by (simp only: m)
  moreover have "\<forall>b\<in>set (butlast bs). length b = 2" using bs(5) by (simp only: c1)
  moreover have "length (last bs) \<le> 2" using bs(7) by (simp only: c1)
  ultimately show ?thesis using bs(1,2,6) ne c by blast
qed

subsection \<open>The result of a bundle extraction\<close>

lemma is_digit_char_of: "d < 10 \<Longrightarrow> is_digit (char_of (48 + d))" for d :: nat
  by (simp add: is_digit_def)

lemma show_nat_digits: "c \<in> set (show_nat n) \<Longrightarrow> is_digit c"
proof (induction n arbitrary: c rule: show_nat.induct)
  case (1 n)
  show ?case
  proof (cases "n < 10")
    case True
    with "1.prems" show ?thesis by (subst (asm) show_nat.simps) (simp add: is_digit_char_of)
  next
    case False
    from "1.prems" have "c \<in> set (show_nat (n div 10)) \<or> c = char_of (48 + n mod 10)"
      using False by (subst (asm) show_nat.simps) auto
    then show ?thesis using "1.IH" [OF False] by (auto simp: is_digit_char_of)
  qed
qed

lemma show_nat_nonempty: "show_nat n \<noteq> []"
  by (subst show_nat.simps) simp

lemma dec_value_append: "dec_value (xs @ ys) acc = dec_value ys (dec_value xs acc)"
  by (induction xs arbitrary: acc) simp_all

lemma of_char_digit: "d < 10 \<Longrightarrow> (of_char (char_of (48 + d)) :: int) = 48 + int d" for d :: nat
proof -
  assume d: "d < 10"
  have "(of_char (char_of (48 + d)) :: int) = int (of_char (char_of (48 + d)))"
    by (simp only: of_nat_of_char)
  also have "\<dots> = int ((48 + d) mod 256)" by simp
  also have "\<dots> = 48 + int d" using d by simp
  finally show ?thesis .
qed

lemma dec_value_show_nat: "dec_value (show_nat n) 0 = int n"
proof (induction n rule: show_nat.induct)
  case (1 n)
  show ?case
  proof (cases "n < 10")
    case True
    then show ?thesis by (subst show_nat.simps) (simp add: of_char_digit)
  next
    case False
    have "dec_value (show_nat n) 0 =
        dec_value [char_of (48 + n mod 10)] (dec_value (show_nat (n div 10)) 0)"
      using False by (subst show_nat.simps) (simp add: dec_value_append)
    also have "\<dots> = int (n div 10) * 10 + int (n mod 10)"
      using "1.IH" [OF False] by (simp add: of_char_digit)
    also have "\<dots> = int n" by (simp add: zdiv_int zmod_int)
    finally show ?thesis .
  qed
qed

lemma span_show_nat:
  assumes "\<not> is_digit c"
  shows "takeWhile is_digit (show_nat n @ c # r) = show_nat n"
    and "dropWhile is_digit (show_nat n @ c # r) = c # r"
  using assms by (simp_all add: takeWhile_append2 dropWhile_append2 show_nat_digits)

lemma strip_prefix_append: "strip_prefix p (p @ s) = Some s"
  by (induction p) simp_all

lemma match_here_done:
  "match_here (''Done, '' @ show_nat x @ ''/'' @ show_nat y @ '' extracted, '' @ show_nat z
                 @ '' missed'' @ r)
     = Some (show_nat x, show_nat y, show_nat z)"
proof -
  have nd: "\<not> is_digit CHR ''/''" "\<not> is_digit CHR '' ''" by (simp_all add: is_digit_def)
  have 1: "strip_prefix ''Done, '' (''Done, '' @ s) = Some s" for s
    by (rule strip_prefix_append)
  have 2: "strip_prefix ''/'' (''/'' @ s) = Some s" for s by (rule strip_prefix_append)
  have 3: "strip_prefix '' extracted, '' ('' extracted, '' @ s) = Some s" for s
    by (rule strip_prefix_append)
  have 4: "strip_prefix '' missed'' ('' missed'' @ s) = Some s" for s
    by (rule strip_prefix_append)
  have t1: "takeWhile is_digit (show_nat n @ ''/'' @ s) = show_nat n"
    and d1: "dropWhile is_digit (show_nat n @ ''/'' @ s) = ''/'' @ s" for n s
    using span_show_nat [OF nd(1), of n s] by simp_all
  have t2: "takeWhile is_digit (show_nat n @ '' extracted, '' @ s) = show_nat n"
    and d2: "dropWhile is_digit (show_nat n @ '' extracted, '' @ s) = '' extracted, '' @ s" for n s
    using span_show_nat [OF nd(2), of n "''extracted, '' @ s"] by simp_all
  have t3: "takeWhile is_digit (show_nat n @ '' missed'' @ s) = show_nat n"
    and d3: "dropWhile is_digit (show_nat n @ '' missed'' @ s) = '' missed'' @ s" for n s
    using span_show_nat [OF nd(2), of n "''missed'' @ s"] by simp_all
  show ?thesis
    by (simp only: match_here_def 1 2 3 4 t1 d1 t2 d2 t3 d3 option.case Let_def
        show_nat_nonempty if_False)
qed

lemma regex_match_first:
  assumes "match_here s = Some m"
    and "\<forall>i<length pre. match_here (drop i (pre @ s)) = None"
  shows "regex_match (pre @ s) = Some m"
  using assms(2)
proof (induction pre)
  case Nil
  show ?case using assms(1) by (cases s) simp_all
next
  case (Cons c pre)
  from Cons.prems have "match_here (drop 0 ((c # pre) @ s)) = None" by blast
  then have h: "match_here (c # pre @ s) = None" by simp
  have "\<forall>i<length pre. match_here (drop i (pre @ s)) = None"
  proof (intro allI impI)
    fix i assume "i < length pre"
    then have "Suc i < length (c # pre)" by simp
    with Cons.prems have "match_here (drop (Suc i) ((c # pre) @ s)) = None" by blast
    then show "match_here (drop i (pre @ s)) = None" by simp
  qed
  then have "regex_match (pre @ s) = Some m" by (rule Cons.IH)
  with h show ?case by simp
qed

lemma find_sub_append: "find_sub pat (pre @ pat @ post) \<noteq> None"
proof (induction pre)
  case Nil
  show ?case
  proof (cases "pat @ post")
    case Nil
    then show ?thesis by simp
  next
    case (Cons a l)
    have "take (length pat) (pat @ post) = pat" by simp
    then have "take (length pat) (a # l) = pat" by (simp only: Cons)
    then show ?thesis by (simp add: Cons)
  qed
next
  case (Cons c pre)
  then show ?case by auto
qed

lemma includes_done:
  "str_includes (pre @ done_line x y z @ post) ''Done,''"
proof -
  have "done_line x y z = ''Done,'' @ tl (tl (tl (tl (tl (done_line x y z)))))"
    by (simp add: done_line_def)
  then obtain r where "done_line x y z = ''Done,'' @ r" ..
  then have "pre @ done_line x y z @ post = pre @ ''Done,'' @ (r @ post)" by simp
  then show ?thesis
    unfolding str_includes_def by (simp only: find_sub_append not_False_eq_True)
qed


lemma strip_prefix_Some: "strip_prefix p s = Some r \<Longrightarrow> s = p @ r"
  by (induction p s rule: strip_prefix.induct) (auto split: if_splits)

lemma match_here_prefix:
  assumes "match_here s = Some m"
  shows "\<exists>r. s = ''Done, '' @ r"
proof (cases "strip_prefix ''Done, '' s")
  case None
  with assms show ?thesis by (simp add: match_here_def)
next
  case (Some r)
  then have "s = ''Done, '' @ r" by (rule strip_prefix_Some)
  then show ?thesis ..
qed

lemma regex_match_includes:
  assumes "regex_match s = Some m"
  shows "str_includes s ''Done,''"
proof -
  have "\<exists>pre t. s = pre @ t \<and> match_here t = Some m"
    using assms
  proof (induction s)
    case Nil
    then show ?case by simp
  next
    case (Cons c cs)
    show ?case
    proof (cases "match_here (c # cs)")
      case None
      with Cons.prems have "regex_match cs = Some m" by simp
      from Cons.IH [OF this] obtain pre t where "cs = pre @ t" "match_here t = Some m" by blast
      then have "c # cs = (c # pre) @ t \<and> match_here t = Some m" by simp
      then show ?thesis by blast
    next
      case (Some m')
      with Cons.prems have "m' = m" by simp
      with Some have "c # cs = [] @ (c # cs) \<and> match_here (c # cs) = Some m" by simp
      then show ?thesis by blast
    qed
  qed
  then obtain pre t where s: "s = pre @ t" and t: "match_here t = Some m" by blast
  from match_here_prefix [OF t] obtain r where "t = ''Done, '' @ r" ..
  then have "s = pre @ ''Done,'' @ ('' '' @ r)" using s by simp
  then show ?thesis
    unfolding str_includes_def by (simp only: find_sub_append not_False_eq_True)
qed

lemma parseInt_show_nat: "int x < 2 ^ 53 \<Longrightarrow> parseInt (show_nat x) = int x"
  by (simp add: parseInt_def dec_value_show_nat round53_small)

text \<open>
  C7. Once the utility has run, the operation throws exactly when the exit code is not
  zero and the combined output (\<open>stdout\<close>, a newline, the standard error) does not
  contain \<open>Done,\<close>. Otherwise the leftmost match of
  \<open>Done, (\d+)/(\d+) extracted, (\d+) missed\<close> is reported; when the output holds the line
  \<open>Done, X/Y extracted, Z missed.\<close> and nothing before it matches, the result is
  \<open>extracted = X\<close>, \<open>total = Y\<close>, \<open>missed = Z\<close> (counts below \<open>2 ^ 53\<close>); when nothing
  matches, the result is 0 extracted and all \<open>n\<close> requested patterns missed.
\<close>

theorem extractBundledFiles_outcome:
  "(isl (extractBundledFiles ec out err n) \<longleftrightarrow>
      ec \<noteq> 0 \<and> \<not> str_includes (out @ [CHR 0x0A] @ err) ''Done,'')
   \<and> (out @ [CHR 0x0A] @ err = pre @ done_line x y z @ post
        \<and> (\<forall>i<length pre. match_here (drop i (pre @ done_line x y z @ post)) = None)
        \<and> int x < 2 ^ 53 \<and> int y < 2 ^ 53 \<and> int z < 2 ^ 53
      \<longrightarrow> extractBundledFiles ec out err n =
            Inr \<lparr>extracted = int x, missed = int z, total = int y\<rparr>)
   \<and> (regex_match (out @ [CHR 0x0A] @ err) = Some (a, b, c)
      \<longrightarrow> extractBundledFiles ec out err n =
            Inr \<lparr>extracted = parseInt a, missed = parseInt c, total = parseInt b\<rparr>)
   \<and> (regex_match (out @ [CHR 0x0A] @ err) = None
        \<and> (ec = 0 \<or> str_includes (out @ [CHR 0x0A] @ err) ''Done,'')
      \<longrightarrow> extractBundledFiles ec out err n =
            Inr \<lparr>extracted = 0, missed = int n, total = int n\<rparr>)"
proof (intro conjI impI)
  show "isl (extractBundledFiles ec out err n) \<longleftrightarrow>
      ec \<noteq> 0 \<and> \<not> str_includes (out @ [CHR 0x0A] @ err) ''Done,''"
    by (simp add: extractBundledFiles_def Let_def split: option.splits)
next
  assume h: "out @ [CHR 0x0A] @ err = pre @ done_line x y z @ post
        \<and> (\<forall>i<length pre. match_here (drop i (pre @ done_line x y z @ post)) = None)
        \<and> int x < 2 ^ 53 \<and> int y < 2 ^ 53 \<and> int z < 2 ^ 53"
  let ?s = "done_line x y z @ post"
  have dl: "done_line x y z @ post =
      ''Done, '' @ show_nat x @ ''/'' @ show_nat y @ '' extracted, '' @ show_nat z
        @ '' missed'' @ (''.'' @ post)"
    by (simp add: done_line_def)
  have mh: "match_here ?s = Some (show_nat x, show_nat y, show_nat z)"
    unfolding dl by (rule match_here_done)
  have rm: "regex_match (pre @ ?s) = Some (show_nat x, show_nat y, show_nat z)"
    using mh h by (intro regex_match_first) simp_all
  have inc: "str_includes (pre @ ?s) ''Done,''" by (rule includes_done)
  show "extractBundledFiles ec out err n =
            Inr \<lparr>extracted = int x, missed = int z, total = int y\<rparr>"
    using h rm inc by (simp add: extractBundledFiles_def Let_def parseInt_show_nat)
next
  assume h: "regex_match (out @ [CHR 0x0A] @ err) = Some (a, b, c)"
  from regex_match_includes [OF h]
  show "extractBundledFiles ec out err n =
            Inr \<lparr>extracted = parseInt a, missed = parseInt c, total = parseInt b\<rparr>"
    using h by (simp add: extractBundledFiles_def Let_def)
next
  assume "regex_match (out @ [CHR 0x0A] @ err) = None
        \<and> (ec = 0 \<or> str_includes (out @ [CHR 0x0A] @ err) ''Done,'')"
  then show "extractBundledFiles ec out err n =
            Inr \<lparr>extracted = 0, missed = int n, total = int n\<rparr>"
    by (auto simp: extractBundledFiles_def Let_def)
qed

text \<open>C7 as stated: with exit code 0 and no output, or with exit code 1 and an output
  that holds \<open>Done,\<close> but not the whole line, the operation does not throw and no line
  is parsed; the result is the fallback.\<close>

theorem extractBundledFiles_no_line_counterexample:
  "extractBundledFiles 0 [] [] 3 = Inr \<lparr>extracted = 0, missed = 3, total = 3\<rparr>
   \<and> regex_match ([] @ [CHR 0x0A] @ []) = None
   \<and> extractBundledFiles 1 [] ''Done, interrupted'' 3 =
        Inr \<lparr>extracted = 0, missed = 3, total = 3\<rparr>
   \<and> regex_match ([] @ [CHR 0x0A] @ ''Done, interrupted'') = None"
  by code_simp

theorem extractBundledFiles_outcome_witness:
  "[] @ [CHR 0x0A] @ utility_stderr =
      ([CHR 0x0A] @ ''Extracting: art/a.dds'' @ [CHR 0x0A]) @ done_line 12 15 3 @ [CHR 0x0A]
   \<and> list_all (\<lambda>i. match_here (drop i (([CHR 0x0A] @ ''Extracting: art/a.dds'' @ [CHR 0x0A])
                         @ done_line 12 15 3 @ [CHR 0x0A])) = None)
        [0..<length ([CHR 0x0A] @ ''Extracting: art/a.dds'' @ [CHR 0x0A])]
   \<and> int 12 < 2 ^ 53 \<and> int 15 < 2 ^ 53 \<and> int 3 < 2 ^ 53
   \<and> extractBundledFiles 0 [] utility_stderr 15 =
        Inr \<lparr>extracted = 12, missed = 3, total = 15\<rparr>
   \<and> regex_match ([] @ [CHR 0x0A] @ ''boom'') = None
   \<and> extractBundledFiles 0 [] ''boom'' 3 = Inr \<lparr>extracted = 0, missed = 3, total = 3\<rparr>
   \<and> isl (extractBundledFiles 1 [] ''boom'' 3)
   \<and> \<not> str_includes ([] @ [CHR 0x0A] @ ''boom'') ''Done,''"
proof -
  let ?pre = "[CHR 0x0A] @ ''Extracting: art/a.dds'' @ [CHR 0x0A]"
  let ?post = "[CHR 0x0A]"
  have o: "[] @ [CHR 0x0A] @ utility_stderr = ?pre @ done_line 12 15 3 @ ?post"
    by (simp add: utility_stderr_def)
  have la: "list_all (\<lambda>i. match_here (drop i (?pre @ done_line 12 15 3 @ ?post)) = None)
        [0..<length ?pre]"
    by code_simp
  then have all: "\<forall>i<length ?pre. match_here (drop i (?pre @ done_line 12 15 3 @ ?post)) = None"
    unfolding list_all_iff set_upt by (intro allI impI) (simp only: Ball_def atLeastLessThan_iff, blast)
  have b: "int 12 < 2 ^ 53" "int 15 < 2 ^ 53" "int 3 < 2 ^ 53" by simp_all
  note th = extractBundledFiles_outcome
  have 1: "extractBundledFiles 0 [] utility_stderr 15 =
        Inr \<lparr>extracted = int 12, missed = int 3, total = int 15\<rparr>"
    using th [of 0 "[]" utility_stderr 15 ?pre 12 15 3 ?post] o all b by blast
  have n: "regex_match ([] @ [CHR 0x0A] @ ''boom'') = None" by code_simp
  have ni: "\<not> str_includes ([] @ [CHR 0x0A] @ ''boom'') ''Done,''" by code_simp
  have 2: "extractBundledFiles 0 [] ''boom'' 3 = Inr \<lparr>extracted = 0, missed = int 3, total = int 3\<rparr>"
    using th [of 0 "[]" "''boom''" 3] n by blast
  have 3: "isl (extractBundledFiles 1 [] ''boom'' 3)"
    using th [of 1 "[]" "''boom''" 3] ni by simp
  from o la b 1 n 2 3 ni show ?thesis by simp
qed

subsection \<open>Table files in the extraction pipeline\<close>

lemma parse_dat_file_count:
  "parsed (snd (parse_dat_file env parser (fs, res) file))
     + failed (snd (parse_dat_file env parser (fs, res) file))
   = parsed res + failed res + 1"
  by (simp add: parse_dat_file_def Let_def split: option.splits sum.splits prod.splits)

lemma parse_dat_files_count:
  "parsed (snd (parse_dat_files env parser files st))
     + failed (snd (parse_dat_files env parser files st))
   = parsed (snd st) + failed (snd st) + length files"
proof (induction files arbitrary: st)
  case Nil
  show ?case by simp
next
  case (Cons f files)
  obtain fs res where st: "st = (fs, res)" by (cases st)
  show ?case
    using Cons.IH [of "parse_dat_file env parser st f"] parse_dat_file_count [of env parser fs res f]
    by (simp add: st)
qed

lemma json_path_differs:
  assumes "ends_with (toLowerCase file) ''.datc64''"
  shows "replace_dat_suffix file ''.json'' \<noteq> file"
proof -
  from assms have "7 \<le> length file" by (simp add: ends_with_def toLowerCase_def)
  then have "length (replace_dat_suffix file ''.json'') \<noteq> length file"
    using assms by (simp add: replace_dat_suffix_def)
  then show ?thesis by auto
qed

lemma writeFile_failed:
  assumes "write_file env path content \<noteq> Written"
  shows "\<exists>fs1. writeFile env fs path content = Inl (Error, fs1)"
  using assms by (cases "write_file env path content") (simp_all add: writeFile_def)

text \<open>
  C9. One table file in the pipeline, named \<open>*.datc64\<close>. When a parser is loaded, the
  file is read, its decoding has at least one row and the write of the JSON text
  succeeds, the text is stored at the path with \<open>.datc64\<close> replaced by \<open>.json\<close>, the
  binary is unlinked (a refused unlink is ignored) and \<open>parsed\<close> grows by one; when the
  unlink succeeds the JSON file is then present and the binary gone. Without a parser,
  with an unreadable file, with a decoding that throws or one that has no rows, nothing
  is written or deleted and \<open>failed\<close> grows by one; a write that fails is counted in
  \<open>failed\<close> as well, whatever it leaves on the disk. Over any list of files every file
  is counted once, in \<open>parsed\<close> or in \<open>failed\<close>: no failure ends the loop.
\<close>

theorem pipeline_table_file:
  "(parser = Some p \<and> ends_with (toLowerCase file) ''.datc64'' \<and> readFile fs file = Inr buf
      \<and> parse p buf (toLowerCase (replace_dat_suffix (basename file) [])) = Inr result
      \<and> rows result \<noteq> []
      \<and> write_file env (replace_dat_suffix file ''.json'') (JSON_stringify env result) = Written
    \<longrightarrow> parse_dat_file env parser (fs, res) file =
          (if can_unlink env file
           then (fs(replace_dat_suffix file ''.json'' \<mapsto> JSON_stringify env result))(file := None)
           else fs(replace_dat_suffix file ''.json'' \<mapsto> JSON_stringify env result),
           res\<lparr>parsed := parsed res + 1\<rparr>)
        \<and> fst (parse_dat_file env parser (fs, res) file) (replace_dat_suffix file ''.json'')
            = Some (JSON_stringify env result)
        \<and> (can_unlink env file \<longrightarrow> fst (parse_dat_file env parser (fs, res) file) file = None))
   \<and> (parser = None \<or> readFile fs file = Inl e
      \<or> (parser = Some p \<and> readFile fs file = Inr buf
          \<and> parse p buf (toLowerCase (replace_dat_suffix (basename file) [])) = Inl e')
      \<or> (parser = Some p \<and> readFile fs file = Inr buf
          \<and> parse p buf (toLowerCase (replace_dat_suffix (basename file) [])) = Inr result
          \<and> rows result = [])
    \<longrightarrow> parse_dat_file env parser (fs, res) file = (fs, res\<lparr>failed := failed res + 1\<rparr>))
   \<and> (parser = Some p \<and> readFile fs file = Inr buf
      \<and> parse p buf (toLowerCase (replace_dat_suffix (basename file) [])) = Inr result
      \<and> rows result \<noteq> []
      \<and> write_file env (replace_dat_suffix file ''.json'') (JSON_stringify env result) \<noteq> Written
    \<longrightarrow> snd (parse_dat_file env parser (fs, res) file) = res\<lparr>failed := failed res + 1\<rparr>)
   \<and> parsed (snd (parse_dat_files env parser files (fs, res)))
         + failed (snd (parse_dat_files env parser files (fs, res)))
       = parsed res + failed res + length files"
proof (intro conjI impI)
  assume h: "parser = Some p \<and> ends_with (toLowerCase file) ''.datc64'' \<and> readFile fs file = Inr buf
      \<and> parse p buf (toLowerCase (replace_dat_suffix (basename file) [])) = Inr result
      \<and> rows result \<noteq> []
      \<and> write_file env (replace_dat_suffix file ''.json'') (JSON_stringify env result) = Written"
  then have p: "fs file \<noteq> None" by (auto simp: readFile_def split: option.splits)
  from h have ne: "replace_dat_suffix file ''.json'' \<noteq> file" by (simp add: json_path_differs)
  from h p show eq: "parse_dat_file env parser (fs, res) file =
          (if can_unlink env file
           then (fs(replace_dat_suffix file ''.json'' \<mapsto> JSON_stringify env result))(file := None)
           else fs(replace_dat_suffix file ''.json'' \<mapsto> JSON_stringify env result),
           res\<lparr>parsed := parsed res + 1\<rparr>)"
    by (auto simp: parse_dat_file_def Let_def writeFile_def unlink_def)
  from ne show "fst (parse_dat_file env parser (fs, res) file) (replace_dat_suffix file ''.json'')
            = Some (JSON_stringify env result)"
    by (simp add: eq)
  assume "can_unlink env file"
  then show "fst (parse_dat_file env parser (fs, res) file) file = None"
    by (simp add: eq)
next
  assume "parser = None \<or> readFile fs file = Inl e
      \<or> (parser = Some p \<and> readFile fs file = Inr buf
          \<and> parse p buf (toLowerCase (replace_dat_suffix (basename file) [])) = Inl e')
      \<or> (parser = Some p \<and> readFile fs file = Inr buf
          \<and> parse p buf (toLowerCase (replace_dat_suffix (basename file) [])) = Inr result
          \<and> rows result = [])"
  then show "parse_dat_file env parser (fs, res) file = (fs, res\<lparr>failed := failed res + 1\<rparr>)"
    by (auto simp: parse_dat_file_def Let_def split: option.splits)
next
  assume h: "parser = Some p \<and> readFile fs file = Inr buf
      \<and> parse p buf (toLowerCase (replace_dat_suffix (basename file) [])) = Inr result
      \<and> rows result \<noteq> []
      \<and> write_file env (replace_dat_suffix file ''.json'') (JSON_stringify env result) \<noteq> Written"
  then obtain fs1 where
    "writeFile env fs (replace_dat_suffix file ''.json'') (JSON_stringify env result)
       = Inl (Error, fs1)"
    using writeFile_failed by blast
  with h show "snd (parse_dat_file env parser (fs, res) file) = res\<lparr>failed := failed res + 1\<rparr>"
    by (simp add: parse_dat_file_def Let_def)
next
  show "parsed (snd (parse_dat_files env parser files (fs, res)))
         + failed (snd (parse_dat_files env parser files (fs, res)))
       = parsed res + failed res + length files"
    using parse_dat_files_count [of env parser files "(fs, res)"] by simp
qed

text \<open>C9 as stated fails twice. A table that decodes successfully to no rows: the file
  with row count 0 gives a result without error, yet no JSON is written, the binary
  stays and the file is counted as failed. And a file named \<open>*.dat\<close> that decodes to two
  rows: the path of the JSON text is the path of the binary itself, so the text
  replaces the binary and is then unlinked; no \<open>.json\<close> file exists afterwards and the
  file is counted as parsed.\<close>

theorem pipeline_empty_table_counterexample:
  "parse mismatch_parser empty_table_buffer
       (toLowerCase (replace_dat_suffix (basename ''out/data/mismatch.datc64'') [])) =
     Inr \<lparr>rows = [], rowCount = 0, error = None\<rparr>
   \<and> snd (parse_dat_file plain_environment (Some mismatch_parser)
            ([''out/data/mismatch.datc64'' \<mapsto> empty_table_buffer], \<lparr>parsed = 0, failed = 0\<rparr>)
            ''out/data/mismatch.datc64'') = \<lparr>parsed = 0, failed = 1\<rparr>
   \<and> fst (parse_dat_file plain_environment (Some mismatch_parser)
            ([''out/data/mismatch.datc64'' \<mapsto> empty_table_buffer], \<lparr>parsed = 0, failed = 0\<rparr>)
            ''out/data/mismatch.datc64'') ''out/data/mismatch.json'' = None
   \<and> fst (parse_dat_file plain_environment (Some mismatch_parser)
            ([''out/data/mismatch.datc64'' \<mapsto> empty_table_buffer], \<lparr>parsed = 0, failed = 0\<rparr>)
            ''out/data/mismatch.datc64'') ''out/data/mismatch.datc64'' = Some empty_table_buffer
   \<and> parse dat_named_parser mismatch_buffer
       (toLowerCase (replace_dat_suffix (basename ''out/data/mismatch.dat'') [])) =
     Inr \<lparr>rows =
            [[(''_rid'', JNum 0), (''A'', JNum 7), (''B'', JStr [104, 105]), (''C'', JNull)],
             [(''_rid'', JNum 1), (''A'', JNum 9), (''B'', JStr [104, 105]),
              (''C'', JStr [104, 105])]],
          rowCount = 2, error = None\<rparr>
   \<and> replace_dat_suffix ''out/data/mismatch.dat'' ''.json'' = ''out/data/mismatch.dat''
   \<and> snd (parse_dat_file plain_environment (Some dat_named_parser)
            ([''out/data/mismatch.dat'' \<mapsto> mismatch_buffer], \<lparr>parsed = 0, failed = 0\<rparr>)
            ''out/data/mismatch.dat'') = \<lparr>parsed = 1, failed = 0\<rparr>
   \<and> fst (parse_dat_file plain_environment (Some dat_named_parser)
            ([''out/data/mismatch.dat'' \<mapsto> mismatch_buffer], \<lparr>parsed = 0, failed = 0\<rparr>)
            ''out/data/mismatch.dat'') ''out/data/mismatch.json'' = None
   \<and> fst (parse_dat_file plain_environment (Some dat_named_parser)
            ([''out/data/mismatch.dat'' \<mapsto> mismatch_buffer], \<lparr>parsed = 0, failed = 0\<rparr>)
            ''out/data/mismatch.dat'') ''out/data/mismatch.dat'' = None"
  by code_simp

theorem pipeline_table_file_witness:
  "readFile [''out/data/mismatch.datc64'' \<mapsto> mismatch_buffer] ''out/data/mismatch.datc64''
     = Inr mismatch_buffer
   \<and> parse mismatch_parser mismatch_buffer
        (toLowerCase (replace_dat_suffix (basename ''out/data/mismatch.datc64'') [])) =
      Inr \<lparr>rows =
             [[(''_rid'', JNum 0), (''A'', JNum 7), (''B'', JStr [104, 105]), (''C'', JNull)],
              [(''_rid'', JNum 1), (''A'', JNum 9), (''B'', JStr [104, 105]),
               (''C'', JStr [104, 105])]],
           rowCount = 2, error = None\<rparr>
   \<and> ends_with (toLowerCase ''out/data/mismatch.datc64'') ''.datc64''
   \<and> replace_dat_suffix ''out/data/mismatch.datc64'' ''.json'' = ''out/data/mismatch.json''
   \<and> write_file plain_environment ''out/data/mismatch.json'' [] = Written
   \<and> can_unlink plain_environment ''out/data/mismatch.datc64''
   \<and> fst (parse_dat_file plain_environment (Some mismatch_parser)
            ([''out/data/mismatch.datc64'' \<mapsto> mismatch_buffer], \<lparr>parsed = 0, failed = 0\<rparr>)
            ''out/data/mismatch.datc64'') ''out/data/mismatch.json'' = Some []
   \<and> fst (parse_dat_file plain_environment (Some mismatch_parser)
            ([''out/data/mismatch.datc64'' \<mapsto> mismatch_buffer], \<lparr>parsed = 0, failed = 0\<rparr>)
            ''out/data/mismatch.datc64'') ''out/data/mismatch.datc64'' = None
   \<and> snd (parse_dat_file plain_environment (Some mismatch_parser)
            ([''out/data/mismatch.datc64'' \<mapsto> mismatch_buffer], \<lparr>parsed = 0, failed = 0\<rparr>)
            ''out/data/mismatch.datc64'') = \<lparr>parsed = 1, failed = 0\<rparr>
   \<and> parse_dat_file plain_environment None
         ([''out/data/mismatch.datc64'' \<mapsto> mismatch_buffer], \<lparr>parsed = 0, failed = 0\<rparr>)
         ''out/data/mismatch.datc64''
       = ([''out/data/mismatch.datc64'' \<mapsto> mismatch_buffer], \<lparr>parsed = 0, failed = 1\<rparr>)
   \<and> write_file broken_disk_environment ''out/data/mismatch.json'' [] \<noteq> Written
   \<and> snd (parse_dat_file broken_disk_environment (Some mismatch_parser)
            ([''out/data/mismatch.datc64'' \<mapsto> mismatch_buffer], \<lparr>parsed = 0, failed = 0\<rparr>)
            ''out/data/mismatch.datc64'') = \<lparr>parsed = 0, failed = 1\<rparr>"
proof -
  let ?file = "''out/data/mismatch.datc64''"
  let ?fs = "[?file \<mapsto> mismatch_buffer]"
  let ?res = "\<lparr>parsed = 0, failed = 0\<rparr>"
  let ?r = "\<lparr>rows =
             [[(''_rid'', JNum 0), (''A'', JNum 7), (''B'', JStr [104, 105]), (''C'', JNull)],
              [(''_rid'', JNum 1), (''A'', JNum 9), (''B'', JStr [104, 105]),
               (''C'', JStr [104, 105])]],
           rowCount = 2, error = None\<rparr>"
  have rf: "readFile ?fs ?file = Inr mismatch_buffer" by (simp add: readFile_def)
  have pr: "parse mismatch_parser mismatch_buffer
        (toLowerCase (replace_dat_suffix (basename ?file) [])) = Inr ?r"
    by code_simp
  have nr: "rows ?r \<noteq> []" by simp
  have jp: "replace_dat_suffix ?file ''.json'' = ''out/data/mismatch.json''" by code_simp
  have ew: "ends_with (toLowerCase ?file) ''.datc64''" by code_simp
  have js: "JSON_stringify plain_environment ?r = []"
    and jb: "JSON_stringify broken_disk_environment ?r = []"
    by (simp_all add: plain_environment_def broken_disk_environment_def)
  have cw: "write_file plain_environment (replace_dat_suffix ?file ''.json'')
              (JSON_stringify plain_environment ?r) = Written"
    by (simp add: plain_environment_def)
  have bw: "write_file broken_disk_environment (replace_dat_suffix ?file ''.json'')
              (JSON_stringify broken_disk_environment ?r) \<noteq> Written"
    by (simp add: broken_disk_environment_def)
  have cu: "can_unlink plain_environment ?file" by (simp add: plain_environment_def)
  note th = pipeline_table_file [of "Some mismatch_parser" mismatch_parser ?file ?fs
      mismatch_buffer ?r plain_environment ?res]
  have 1: "parse_dat_file plain_environment (Some mismatch_parser) (?fs, ?res) ?file =
      ((?fs(replace_dat_suffix ?file ''.json'' \<mapsto> JSON_stringify plain_environment ?r))
          (?file := None), ?res\<lparr>parsed := parsed ?res + 1\<rparr>)"
    using th rf pr nr cw cu ew by simp
  have 2: "fst (parse_dat_file plain_environment (Some mismatch_parser) (?fs, ?res) ?file)
             (replace_dat_suffix ?file ''.json'') = Some (JSON_stringify plain_environment ?r)
        \<and> fst (parse_dat_file plain_environment (Some mismatch_parser) (?fs, ?res) ?file) ?file
             = None"
    using th rf pr nr cw cu ew by blast
  have 3: "parse_dat_file plain_environment None (?fs, ?res) ?file
       = (?fs, ?res\<lparr>failed := failed ?res + 1\<rparr>)"
    using pipeline_table_file [of None _ ?file ?fs _ _ plain_environment ?res] by blast
  from 1 have 4: "snd (parse_dat_file plain_environment (Some mismatch_parser) (?fs, ?res) ?file)
      = \<lparr>parsed = 1, failed = 0\<rparr>" by simp
  have 5: "snd (parse_dat_file broken_disk_environment (Some mismatch_parser) (?fs, ?res) ?file)
      = ?res\<lparr>failed := failed ?res + 1\<rparr>"
    using pipeline_table_file [of "Some mismatch_parser" mismatch_parser ?file ?fs
      mismatch_buffer ?r broken_disk_environment ?res] rf pr nr bw by blast
  from rf pr cw bw cu ew jp 2 3 4 5 js jb show ?thesis by simp
qed

end
